theory Spec2Isabelle
  imports Complex_Main "HOL-Library.Monad_Syntax"
begin

section \<open>Semi-global matching: the HLS core\<close>

text \<open>
  The development follows \<^verbatim>\<open>hls/src/sgm_hls.h\<close> and \<^verbatim>\<open>hls/src/sgm_hls.cpp\<close>.

  Numbers. The C code computes on \<^verbatim>\<open>float\<close>, that is binary32. Here a \<^verbatim>\<open>float\<close> is a
  real number and \<^verbatim>\<open>+\<close>, \<^verbatim>\<open>-\<close>, \<^verbatim>\<open>hls::fabs\<close>, \<^verbatim>\<open><\<close> are the exact operations;
  rounding, infinities and NaN are not modelled. Model and code agree wherever every value
  that the code forms is an integer of magnitude below \<open>2^24\<close>, which binary32 represents
  exactly: on grayscale images (every pixel an integer between 0 and 255) and on cost
  volumes whose cells are integers between 0 and 2000. The theorems that state the
  value of a sum or of a difference carry one of these hypotheses (\<open>grayscale\<close>,
  \<open>cost_cells_within\<close>). The theorems without it state what rounding does not change: a
  copied cell, the range of the stored index, the equality of two runs, a zero that stays
  zero, a comparison with a wide margin. Loop counters and array indices are C \<^verbatim>\<open>int\<close>;
  for the cardinal directions, and for every direction vector no longer than the grid, all
  of them stay between \<open>- HEIGHT - WIDTH\<close> and \<open>HEIGHT * WIDTH\<close>, so they are unbounded
  integers here.

  Arrays. \<^verbatim>\<open>float a[HEIGHT * WIDTH]\<close> is a function from the index to the cell,
  \<^verbatim>\<open>float v[HEIGHT][WIDTH][MAX_DISP]\<close> a curried function of the three indices, and an
  assignment to a cell is a function update. The cells of a function outside the declared
  bounds do not exist in the program; the lemmas \<open>compute_sad_cost_cells\<close>,
  \<open>aggregate_scan_cells\<close> and \<open>winner_take_all_cells\<close> show that the code leaves them as
  they were.
\<close>

subsection \<open>Constants of the header\<close>

definition HEIGHT :: int where "HEIGHT = 240"
definition WIDTH :: int where "WIDTH = 272"
definition MAX_DISP :: int where "MAX_DISP = 16"

definition P1_PENALTY :: real where "P1_PENALTY = 8"
definition P2_PENALTY :: real where "P2_PENALTY = 128"

type_synonym pixels = "int \<Rightarrow> real"
type_synonym volume = "int \<Rightarrow> int \<Rightarrow> int \<Rightarrow> real"
type_synonym disparities = "int \<Rightarrow> int"

text \<open>The assignment \<^verbatim>\<open>v[y][x][d] = a\<close>.\<close>

definition store :: "volume \<Rightarrow> int \<Rightarrow> int \<Rightarrow> int \<Rightarrow> real \<Rightarrow> volume" where
  "store v y x d a = v(y := (v y)(x := (v y x)(d := a)))"

subsection \<open>Loops\<close>

text \<open>\<^verbatim>\<open>for (int i = i0; i < n; i++) body\<close>, with the loop's state passed through.\<close>

function for_lt :: "int \<Rightarrow> int \<Rightarrow> (int \<Rightarrow> 's \<Rightarrow> 's) \<Rightarrow> 's \<Rightarrow> 's" where
  "for_lt i n body s = (if i < n then for_lt (i + 1) n body (body i s) else s)"
  by pat_completeness auto
termination
  by (relation "measure (\<lambda>(i, n, body, s). nat (n - i))") auto

declare for_lt.simps [simp del]

text \<open>
  \<^verbatim>\<open>for (int i = i_start; i != i_end; i += i_step) body\<close>. Nothing in the loop itself
  makes it stop, so it is a partial function: \<open>None\<close> is a loop that never leaves.
\<close>

partial_function (option) for_ne ::
  "int \<Rightarrow> int \<Rightarrow> int \<Rightarrow> (int \<Rightarrow> 's \<Rightarrow> 's option) \<Rightarrow> 's \<Rightarrow> 's option" where
  "for_ne i i_end i_step body s =
     (if i = i_end then Some s
      else Option.bind (body i s) (for_ne (i + i_step) i_end i_step body))"

subsection \<open>Matching cost: \<^verbatim>\<open>compute_sad_cost_hls\<close>\<close>

text \<open>The body of the \<^verbatim>\<open>x\<close> loop: the disparity loop at one pixel.\<close>

definition sad_pixel :: "pixels \<Rightarrow> pixels \<Rightarrow> int \<Rightarrow> int \<Rightarrow> volume \<Rightarrow> volume" where
  "sad_pixel left_pixels right_pixels y x =
     (let pixel_idx = y * WIDTH + x in
      for_lt 0 MAX_DISP (\<lambda>d cost_volume.
        if x - d \<ge> 0
        then store cost_volume y x d
               \<bar>left_pixels pixel_idx - right_pixels (y * WIDTH + (x - d))\<bar>
        else store cost_volume y x d 1000))"

definition compute_sad_cost_hls :: "pixels \<Rightarrow> pixels \<Rightarrow> volume \<Rightarrow> volume" where
  "compute_sad_cost_hls left_pixels right_pixels =
     for_lt 0 HEIGHT (\<lambda>y. for_lt 0 WIDTH (\<lambda>x. sad_pixel left_pixels right_pixels y x))"

subsection \<open>Path aggregation: \<^verbatim>\<open>aggregate_path_hls\<close>\<close>

text \<open>
  Both functions below take \<open>prev\<close>, the sub-array \<^verbatim>\<open>path_cost_volume[prev_y][prev_x]\<close>.
  The first is the loop that finds the smallest aggregated cost of the previous pixel.
\<close>

definition min_prev_aggregated :: "(int \<Rightarrow> real) \<Rightarrow> real" where
  "min_prev_aggregated prev =
     for_lt 1 MAX_DISP (\<lambda>i m. if prev i < m then prev i else m) (prev 0)"

text \<open>The four transitions at disparity \<open>d\<close> and the three comparisons that select one.\<close>

definition min_transition_cost :: "(int \<Rightarrow> real) \<Rightarrow> real \<Rightarrow> int \<Rightarrow> real" where
  "min_transition_cost prev min_prev d =
     (let cost_same = prev d;
          cost_step_down = (if d > 0 then prev (d - 1) + P1_PENALTY else 2000);
          cost_step_up = (if d < MAX_DISP - 1 then prev (d + 1) + P1_PENALTY else 2000);
          cost_jump = min_prev + P2_PENALTY;
          m0 = cost_same;
          m1 = (if cost_step_down < m0 then cost_step_down else m0);
          m2 = (if cost_step_up < m1 then cost_step_up else m1);
          m3 = (if cost_jump < m2 then cost_jump else m2)
      in m3)"

text \<open>
  The body of the \<^verbatim>\<open>x\<close> loop. Each iteration of the disparity loop reads the previous
  pixel from the volume as it is at that moment.
\<close>

definition aggregate_pixel :: "volume \<Rightarrow> int \<Rightarrow> int \<Rightarrow> int \<Rightarrow> int \<Rightarrow> volume \<Rightarrow> volume" where
  "aggregate_pixel cost_volume dir_y dir_x y x path_cost_volume =
     (let prev_y = y - dir_y; prev_x = x - dir_x in
      if prev_y \<ge> 0 \<and> prev_y < HEIGHT \<and> prev_x \<ge> 0 \<and> prev_x < WIDTH
      then
        let min_prev = min_prev_aggregated (path_cost_volume prev_y prev_x) in
        for_lt 0 MAX_DISP (\<lambda>d pcv.
          store pcv y x d
            (cost_volume y x d + (min_transition_cost (pcv prev_y prev_x) min_prev d - min_prev)))
          path_cost_volume
      else
        for_lt 0 MAX_DISP (\<lambda>d pcv. store pcv y x d (cost_volume y x d)) path_cost_volume)"

definition aggregate_path_hls :: "volume \<Rightarrow> volume \<Rightarrow> int \<Rightarrow> int \<Rightarrow> volume option" where
  "aggregate_path_hls cost_volume path_cost_volume dir_y dir_x =
     (let y_start = (if dir_y \<ge> 0 then 0 else HEIGHT - 1);
          y_end = (if dir_y \<ge> 0 then HEIGHT else - 1);
          y_step = (if dir_y \<ge> 0 then 1 else - 1);
          x_start = (if dir_x \<ge> 0 then 0 else WIDTH - 1);
          x_end = (if dir_x \<ge> 0 then WIDTH else - 1);
          x_step = (if dir_x \<ge> 0 then 1 else - 1)
      in for_ne y_start y_end y_step
           (\<lambda>y. for_ne x_start x_end x_step
                  (\<lambda>x pcv. Some (aggregate_pixel cost_volume dir_y dir_x y x pcv)))
           path_cost_volume)"

subsection \<open>Winner-take-all and the top level: \<^verbatim>\<open>sgm_hls\<close>\<close>

text \<open>
  The disparity loop of step 3 at one pixel; its state is the pair
  \<^verbatim>\<open>(min_total_cost, best_disparity)\<close>, and \<open>best_disparity\<close> is what is stored.
\<close>

definition select_disparity ::
  "volume \<Rightarrow> volume \<Rightarrow> volume \<Rightarrow> volume \<Rightarrow> int \<Rightarrow> int \<Rightarrow> int" where
  "select_disparity plr prl ptb pbt y x =
     snd (for_lt 0 MAX_DISP
            (\<lambda>d (min_total_cost, best_disparity).
               let total_aggregated_cost = plr y x d + prl y x d + ptb y x d + pbt y x d in
               if total_aggregated_cost < min_total_cost
               then (total_aggregated_cost, d)
               else (min_total_cost, best_disparity))
            (1000000000, 0))"

definition winner_take_all ::
  "volume \<Rightarrow> volume \<Rightarrow> volume \<Rightarrow> volume \<Rightarrow> disparities \<Rightarrow> disparities" where
  "winner_take_all plr prl ptb pbt =
     for_lt 0 HEIGHT (\<lambda>y. for_lt 0 WIDTH (\<lambda>x disparity_output.
       disparity_output(y * WIDTH + x := select_disparity plr prl ptb pbt y x)))"

text \<open>
  The five \<^verbatim>\<open>static\<close> volumes of \<^verbatim>\<open>sgm_hls\<close> keep their contents from one call to the
  next, so they are part of the state: a call receives them as the previous call left them.
\<close>

record on_chip =
  cost_volume :: volume
  path_left_to_right :: volume
  path_right_to_left :: volume
  path_top_to_bottom :: volume
  path_bottom_to_top :: volume

definition sgm_hls ::
  "on_chip \<Rightarrow> pixels \<Rightarrow> pixels \<Rightarrow> disparities \<Rightarrow> (on_chip \<times> disparities) option" where
  "sgm_hls mem left_pixels right_pixels disparity_output =
     (let cv = compute_sad_cost_hls left_pixels right_pixels (cost_volume mem) in
      do {
        plr \<leftarrow> aggregate_path_hls cv (path_left_to_right mem) 0 1;
        prl \<leftarrow> aggregate_path_hls cv (path_right_to_left mem) 0 (- 1);
        ptb \<leftarrow> aggregate_path_hls cv (path_top_to_bottom mem) 1 0;
        pbt \<leftarrow> aggregate_path_hls cv (path_bottom_to_top mem) (- 1) 0;
        Some (\<lparr>cost_volume = cv, path_left_to_right = plr, path_right_to_left = prl,
                path_top_to_bottom = ptb, path_bottom_to_top = pbt\<rparr>,
              winner_take_all plr prl ptb pbt disparity_output)
      })"

section \<open>Auxiliary definitions\<close>

text \<open>The test of \<^verbatim>\<open>aggregate_path_hls\<close> that a pixel is within the frame.\<close>

definition in_grid :: "int \<Rightarrow> int \<Rightarrow> bool" where
  "in_grid y x = (0 \<le> y \<and> y < HEIGHT \<and> 0 \<le> x \<and> x < WIDTH)"

text \<open>
  A loop that runs \<open>n\<close> times from \<open>i\<close> in steps of \<open>i_step\<close>: what the \<^verbatim>\<open>!=\<close> loop
  does when its end is \<open>n\<close> steps away (lemma \<open>for_ne_count\<close>).
\<close>

fun for_count :: "nat \<Rightarrow> int \<Rightarrow> int \<Rightarrow> (int \<Rightarrow> 's \<Rightarrow> 's) \<Rightarrow> 's \<Rightarrow> 's" where
  "for_count 0 i i_step body s = s"
| "for_count (Suc n) i i_step body s = for_count n (i + i_step) i_step body (body i s)"

text \<open>
  The position of an index in the scan order of its axis (ascending for a non-negative
  direction component, descending otherwise), and the number of pixels that
  \<^verbatim>\<open>aggregate_path_hls\<close> visits before pixel \<open>(y, x)\<close>.
\<close>

definition scan_pos :: "int \<Rightarrow> int \<Rightarrow> int \<Rightarrow> int" where
  "scan_pos n dir i = (if dir \<ge> 0 then i else n - 1 - i)"

definition scan_rank :: "int \<Rightarrow> int \<Rightarrow> int \<Rightarrow> int \<Rightarrow> int" where
  "scan_rank dir_y dir_x y x = scan_pos HEIGHT dir_y y * WIDTH + scan_pos WIDTH dir_x x"

text \<open>What one visit of pixel \<open>(y, x)\<close> stores at disparity \<open>d\<close>, read on the volume \<open>pv\<close>.\<close>

definition path_cell :: "volume \<Rightarrow> int \<Rightarrow> int \<Rightarrow> volume \<Rightarrow> int \<Rightarrow> int \<Rightarrow> int \<Rightarrow> real" where
  "path_cell c dir_y dir_x pv y x d =
     (if in_grid (y - dir_y) (x - dir_x)
      then c y x d + (min_transition_cost (pv (y - dir_y) (x - dir_x))
                        (min_prev_aggregated (pv (y - dir_y) (x - dir_x))) d
                      - min_prev_aggregated (pv (y - dir_y) (x - dir_x)))
      else c y x d)"

text \<open>
  The loop invariant of \<^verbatim>\<open>aggregate_path_hls\<close> after \<open>t\<close> pixels: the cells of the pixels
  visited so far satisfy the recurrence on the volume itself, all other cells are as they
  were in \<open>pv0\<close>.
\<close>

definition scanned :: "volume \<Rightarrow> int \<Rightarrow> int \<Rightarrow> volume \<Rightarrow> int \<Rightarrow> volume \<Rightarrow> bool" where
  "scanned c dir_y dir_x pv0 t pv =
     (\<forall>y x d. pv y x d =
        (if in_grid y x \<and> scan_rank dir_y dir_x y x < t \<and> 0 \<le> d \<and> d < MAX_DISP
         then path_cell c dir_y dir_x pv y x d else pv0 y x d))"

text \<open>
  The two loops of \<^verbatim>\<open>aggregate_path_hls\<close> unrolled \<open>HEIGHT\<close> and \<open>WIDTH\<close> times; lemma
  \<open>aggregate_path_returns\<close> shows that this is what the function returns.
\<close>

definition aggregate_scan :: "volume \<Rightarrow> volume \<Rightarrow> int \<Rightarrow> int \<Rightarrow> volume" where
  "aggregate_scan c pv dir_y dir_x =
     for_count (nat HEIGHT) (if dir_y \<ge> 0 then 0 else HEIGHT - 1) (if dir_y \<ge> 0 then 1 else - 1)
       (\<lambda>y. for_count (nat WIDTH) (if dir_x \<ge> 0 then 0 else WIDTH - 1) (if dir_x \<ge> 0 then 1 else - 1)
              (\<lambda>x. aggregate_pixel c dir_y dir_x y x)) pv"

text \<open>
  The recurrence in the words of the specification: \<open>minPrev\<close> is the minimum over all
  disparities of the previous pixel, \<open>transitionMin\<close> the minimum of four candidates. A
  step to a disparity that does not exist is "unreachable/very large": its candidate is the
  value \<open>large\<close>, and the code's choice is 2000.
\<close>

definition spec_minPrev :: "(int \<Rightarrow> real) \<Rightarrow> real" where
  "spec_minPrev prev = Min (prev ` {0..<MAX_DISP})"

definition spec_transitionMin :: "real \<Rightarrow> (int \<Rightarrow> real) \<Rightarrow> int \<Rightarrow> real" where
  "spec_transitionMin large prev d =
     Min {prev d,
          (if d > 0 then prev (d - 1) + P1_PENALTY else large),
          (if d < MAX_DISP - 1 then prev (d + 1) + P1_PENALTY else large),
          spec_minPrev prev + P2_PENALTY}"

text \<open>Concrete inputs.\<close>

definition zero_volume :: volume where
  "zero_volume = (\<lambda>y x d. 0)"

definition flat_cost :: volume where
  "flat_cost = (\<lambda>y x d. 5000)"

definition gray :: "real \<Rightarrow> pixels" where
  "gray v = (\<lambda>i. v)"

text \<open>The sum of the four aggregated costs at one pixel and disparity: \<open>total[d]\<close>.\<close>

definition total_cost ::
  "volume \<Rightarrow> volume \<Rightarrow> volume \<Rightarrow> volume \<Rightarrow> int \<Rightarrow> int \<Rightarrow> int \<Rightarrow> real" where
  "total_cost plr prl ptb pbt y x d = plr y x d + prl y x d + ptb y x d + pbt y x d"

text \<open>
  The selection in the words of the specification: the smallest disparity among those
  whose total is the minimum.
\<close>

definition spec_bestDisparity :: "(int \<Rightarrow> real) \<Rightarrow> int" where
  "spec_bestDisparity tot =
     Min {d \<in> {0..<MAX_DISP}. tot d = Min (tot ` {0..<MAX_DISP})}"

text \<open>
  A grayscale image: every pixel is an integer between 0 and 255. A cost volume within
  \<open>b\<close>: every cell of the grid is an integer between 0 and \<open>b\<close>. On such values every
  sum and difference that the code forms is an integer far below \<open>2^24\<close>, which binary32
  represents exactly (lemmas \<open>grayscale_cost_cells\<close>, \<open>aggregate_scan_Ints\<close>,
  \<open>aggregate_scan_le_2000\<close>).
\<close>

definition grayscale :: "pixels \<Rightarrow> bool" where
  "grayscale img =
     (\<forall>i. 0 \<le> i \<and> i < HEIGHT * WIDTH \<longrightarrow> img i \<in> \<int> \<and> 0 \<le> img i \<and> img i \<le> 255)"

definition cost_cells_within :: "real \<Rightarrow> volume \<Rightarrow> bool" where
  "cost_cells_within b c =
     (\<forall>y x d. in_grid y x \<and> 0 \<le> d \<and> d < MAX_DISP \<longrightarrow>
        c y x d \<in> \<int> \<and> 0 \<le> c y x d \<and> c y x d \<le> b)"

text \<open>A cost volume with different cells: the cell at \<open>(y, x, d)\<close> is \<open>(x + d) mod 256\<close>.\<close>

definition ramp_cost :: volume where
  "ramp_cost = (\<lambda>y x d. of_int ((x + d) mod 256))"

text \<open>The contents of the five static volumes before a call: all zero, or left over.\<close>

definition blank_mem :: on_chip where
  "blank_mem = \<lparr>cost_volume = zero_volume, path_left_to_right = zero_volume,
                 path_right_to_left = zero_volume, path_top_to_bottom = zero_volume,
                 path_bottom_to_top = zero_volume\<rparr>"

definition stale_mem :: on_chip where
  "stale_mem = \<lparr>cost_volume = flat_cost, path_left_to_right = flat_cost,
                 path_right_to_left = flat_cost, path_top_to_bottom = flat_cost,
                 path_bottom_to_top = flat_cost\<rparr>"

definition no_disparities :: disparities where
  "no_disparities = (\<lambda>i. 0)"

definition stale_disparities :: disparities where
  "stale_disparities = (\<lambda>i. 7)"

text \<open>One cell of the volume that \<^verbatim>\<open>aggregate_path_hls\<close> returns.\<close>

definition aggregated_cell :: "volume option \<Rightarrow> int \<Rightarrow> int \<Rightarrow> int \<Rightarrow> real option" where
  "aggregated_cell r y x d = map_option (\<lambda>agg. agg y x d) r"

text \<open>The directions of the specification: the four cardinal unit vectors.\<close>

definition cardinal :: "int \<Rightarrow> int \<Rightarrow> bool" where
  "cardinal dy dx = ((dy = 0 \<and> (dx = 1 \<or> dx = - 1)) \<or> (dx = 0 \<and> (dy = 1 \<or> dy = - 1)))"

text \<open>
  The direction vectors no longer than the grid, cardinal or not. For them \<^verbatim>\<open>y - dir_y\<close> and
  \<^verbatim>\<open>x - dir_x\<close> stay far inside the range of a C \<^verbatim>\<open>int\<close>.
\<close>

definition in_reach :: "int \<Rightarrow> int \<Rightarrow> bool" where
  "in_reach dy dx = (- HEIGHT \<le> dy \<and> dy \<le> HEIGHT \<and> - WIDTH \<le> dx \<and> dx \<le> WIDTH)"

text \<open>
  An image pair outside the grayscale range: the left image is 0 except for one pixel of
  \<open>3 \<cdot> 10\<^sup>9\<close> at \<open>(1, 20)\<close>, the right image is 0 except for one pixel of \<open>10\<^sup>9\<close> at \<open>(1, 19)\<close>.
\<close>

definition spike_left :: pixels where
  "spike_left = (\<lambda>i. if i = 1 * WIDTH + 20 then 3000000000 else 0)"

definition spike_right :: pixels where
  "spike_right = (\<lambda>i. if i = 1 * WIDTH + 19 then 1000000000 else 0)"

text \<open>
  What a call of \<^verbatim>\<open>sgm_hls\<close> leaves: one cell of the disparity map, and whether the total
  of the four path volumes at disparity \<open>d\<close> is below the total at disparity \<open>e\<close>.
\<close>

definition disparity_at :: "(on_chip \<times> disparities) option \<Rightarrow> int \<Rightarrow> int option" where
  "disparity_at r i = map_option (\<lambda>res. snd res i) r"

definition total_below ::
  "(on_chip \<times> disparities) option \<Rightarrow> int \<Rightarrow> int \<Rightarrow> int \<Rightarrow> int \<Rightarrow> bool" where
  "total_below r y x d e =
     (case r of
        None \<Rightarrow> False
      | Some res \<Rightarrow>
          total_cost (path_left_to_right (fst res)) (path_right_to_left (fst res))
            (path_top_to_bottom (fst res)) (path_bottom_to_top (fst res)) y x d
          < total_cost (path_left_to_right (fst res)) (path_right_to_left (fst res))
              (path_top_to_bottom (fst res)) (path_bottom_to_top (fst res)) y x e)"

section \<open>Loops and array fills\<close>

text \<open>The invariant rule of the counting loop: \<open>I i\<close> holds before iteration \<open>i\<close>.\<close>

lemma for_lt_rule:
  assumes "I i0 s" and "i0 \<le> n"
    and "\<And>i s. i0 \<le> i \<Longrightarrow> i < n \<Longrightarrow> I i s \<Longrightarrow> I (i + 1) (body i s)"
  shows "I n (for_lt i0 n body s)"
  using assms
proof (induction i0 n body s rule: for_lt.induct)
  case (1 i n body s)
  show ?case
  proof (cases "i < n")
    case True
    have "I n (for_lt (i + 1) n body (body i s))"
      using 1 True by (intro "1.IH") auto
    then show ?thesis using True by (subst for_lt.simps) simp
  next
    case False
    then have "i = n" using 1 by simp
    then show ?thesis using 1 by (subst for_lt.simps) simp
  qed
qed

lemma fill_disparities:
  assumes "0 \<le> n"
  shows "for_lt 0 n (\<lambda>d v. store v y x d (g d)) v0 =
         (\<lambda>y' x' d'. if y' = y \<and> x' = x \<and> 0 \<le> d' \<and> d' < n then g d' else v0 y' x' d')"
proof -
  let ?I = "\<lambda>i v. v = (\<lambda>y' x' d'. if y' = y \<and> x' = x \<and> 0 \<le> d' \<and> d' < i then g d' else v0 y' x' d')"
  show ?thesis
  proof (rule for_lt_rule [where I = ?I])
    show "?I 0 v0" by (auto simp: fun_eq_iff)
    show "0 \<le> n" by fact
  next
    fix i v assume "0 \<le> i" "i < n" "?I i v"
    then show "?I (i + 1) (store v y x i (g i))"
      by (auto simp: store_def fun_eq_iff)
  qed
qed

lemma fill_row:
  assumes body: "\<And>x v. body x v =
      (\<lambda>y' x' d'. if y' = y \<and> x' = x \<and> 0 \<le> d' \<and> d' < D then g x d' else v y' x' d')"
    and "0 \<le> n"
  shows "for_lt 0 n body v0 =
         (\<lambda>y' x' d'. if y' = y \<and> 0 \<le> x' \<and> x' < n \<and> 0 \<le> d' \<and> d' < D then g x' d' else v0 y' x' d')"
proof -
  let ?I = "\<lambda>i v. v = (\<lambda>y' x' d'. if y' = y \<and> 0 \<le> x' \<and> x' < i \<and> 0 \<le> d' \<and> d' < D then g x' d' else v0 y' x' d')"
  show ?thesis
  proof (rule for_lt_rule [where I = ?I])
    show "?I 0 v0" by (auto simp: fun_eq_iff)
    show "0 \<le> n" by fact
  next
    fix i v assume "0 \<le> i" "i < n" "?I i v"
    then show "?I (i + 1) (body i v)"
      unfolding body by (auto simp: fun_eq_iff)
  qed
qed

lemma fill_grid:
  assumes body: "\<And>y v. body y v =
      (\<lambda>y' x' d'. if y' = y \<and> 0 \<le> x' \<and> x' < W \<and> 0 \<le> d' \<and> d' < D then g y x' d' else v y' x' d')"
    and "0 \<le> n"
  shows "for_lt 0 n body v0 =
         (\<lambda>y' x' d'. if 0 \<le> y' \<and> y' < n \<and> 0 \<le> x' \<and> x' < W \<and> 0 \<le> d' \<and> d' < D then g y' x' d' else v0 y' x' d')"
proof -
  let ?I = "\<lambda>i v. v = (\<lambda>y' x' d'. if 0 \<le> y' \<and> y' < i \<and> 0 \<le> x' \<and> x' < W \<and> 0 \<le> d' \<and> d' < D then g y' x' d' else v0 y' x' d')"
  show ?thesis
  proof (rule for_lt_rule [where I = ?I])
    show "?I 0 v0" by (auto simp: fun_eq_iff)
    show "0 \<le> n" by fact
  next
    fix i v assume "0 \<le> i" "i < n" "?I i v"
    then show "?I (i + 1) (body i v)"
      unfolding body by (auto simp: fun_eq_iff)
  qed
qed

section \<open>The cost volume\<close>

lemma sad_pixel_cells:
  "sad_pixel l r y x v =
     (\<lambda>y' x' d'. if y' = y \<and> x' = x \<and> 0 \<le> d' \<and> d' < MAX_DISP
        then (if x - d' \<ge> 0 then \<bar>l (y * WIDTH + x) - r (y * WIDTH + (x - d'))\<bar> else 1000)
        else v y' x' d')"
proof -
  have "sad_pixel l r y x v =
        for_lt 0 MAX_DISP (\<lambda>d v. store v y x d
          (if x - d \<ge> 0 then \<bar>l (y * WIDTH + x) - r (y * WIDTH + (x - d))\<bar> else 1000)) v"
    unfolding sad_pixel_def Let_def by (rule arg_cong [where f = "\<lambda>b. for_lt 0 MAX_DISP b v"]) (auto simp: fun_eq_iff)
  also have "\<dots> = (\<lambda>y' x' d'. if y' = y \<and> x' = x \<and> 0 \<le> d' \<and> d' < MAX_DISP
        then (if x - d' \<ge> 0 then \<bar>l (y * WIDTH + x) - r (y * WIDTH + (x - d'))\<bar> else 1000)
        else v y' x' d')"
    by (rule fill_disparities) (simp add: MAX_DISP_def)
  finally show ?thesis .
qed

lemma compute_sad_cost_cells:
  "compute_sad_cost_hls l r v =
     (\<lambda>y x d. if 0 \<le> y \<and> y < HEIGHT \<and> 0 \<le> x \<and> x < WIDTH \<and> 0 \<le> d \<and> d < MAX_DISP
        then (if x - d \<ge> 0 then \<bar>l (y * WIDTH + x) - r (y * WIDTH + (x - d))\<bar> else 1000)
        else v y x d)"
  unfolding compute_sad_cost_hls_def
  by (rule fill_grid [where g = "\<lambda>y x d. if x - d \<ge> 0 then \<bar>l (y * WIDTH + x) - r (y * WIDTH + (x - d))\<bar> else 1000"],
      rule fill_row, rule sad_pixel_cells) (simp_all add: HEIGHT_def WIDTH_def)

section \<open>The scan of \<^verbatim>\<open>aggregate_path_hls\<close>\<close>

lemma for_ne_count:
  assumes "i_step \<noteq> 0"
  shows "for_ne i (i + int n * i_step) i_step (\<lambda>j s. Some (body j s)) s =
         Some (for_count n i i_step body s)"
proof (induction n arbitrary: i s)
  case 0
  show ?case by (subst for_ne.simps) simp
next
  case (Suc n)
  have ne: "i \<noteq> i + int (Suc n) * i_step" using assms by simp
  have e: "i + int (Suc n) * i_step = (i + i_step) + int n * i_step"
    by (simp add: algebra_simps)
  have "for_ne i (i + int (Suc n) * i_step) i_step (\<lambda>j s. Some (body j s)) s =
        for_ne (i + i_step) (i + int (Suc n) * i_step) i_step (\<lambda>j s. Some (body j s)) (body i s)"
    using ne by (subst for_ne.simps) simp
  also have "\<dots> = Some (for_count n (i + i_step) i_step body (body i s))"
    unfolding e by (rule Suc.IH)
  finally show ?case by simp
qed

lemma for_count_rule:
  assumes "I 0 s"
    and "\<And>k s. k < n \<Longrightarrow> I k s \<Longrightarrow> I (Suc k) (body (i + int k * i_step) s)"
  shows "I n (for_count n i i_step body s)"
  using assms
proof (induction n arbitrary: i s I)
  case 0
  then show ?case by simp
next
  case (Suc n)
  have "I (Suc n) (for_count n (i + i_step) i_step body (body i s))"
  proof (rule Suc.IH [where I = "\<lambda>k. I (Suc k)"])
    show "I (Suc 0) (body i s)" using Suc.prems(2) [of 0 s] Suc.prems(1) by simp
  next
    fix k s assume "k < n" "I (Suc k) s"
    then have "I (Suc (Suc k)) (body (i + int (Suc k) * i_step) s)"
      by (intro Suc.prems(2)) auto
    then show "I (Suc (Suc k)) (body (i + i_step + int k * i_step) s)"
      by (simp add: algebra_simps)
  qed
  then show ?case by simp
qed

lemma aggregate_pixel_cells:
  assumes "dir_y \<noteq> 0 \<or> dir_x \<noteq> 0"
  shows "aggregate_pixel c dir_y dir_x y x pv =
         (\<lambda>y' x' d'. if y' = y \<and> x' = x \<and> 0 \<le> d' \<and> d' < MAX_DISP
            then path_cell c dir_y dir_x pv y x d' else pv y' x' d')"
proof (cases "in_grid (y - dir_y) (x - dir_x)")
  case False
  then have "aggregate_pixel c dir_y dir_x y x pv =
             for_lt 0 MAX_DISP (\<lambda>d v. store v y x d (c y x d)) pv"
    by (auto simp: aggregate_pixel_def in_grid_def Let_def)
  also have "\<dots> = (\<lambda>y' x' d'. if y' = y \<and> x' = x \<and> 0 \<le> d' \<and> d' < MAX_DISP
            then c y x d' else pv y' x' d')"
    by (rule fill_disparities) (simp add: MAX_DISP_def)
  finally have r: "aggregate_pixel c dir_y dir_x y x pv =
      (\<lambda>y' x' d'. if y' = y \<and> x' = x \<and> 0 \<le> d' \<and> d' < MAX_DISP
            then c y x d' else pv y' x' d')" .
  have pc: "\<And>d. path_cell c dir_y dir_x pv y x d = c y x d"
    using False by (simp add: path_cell_def)
  show ?thesis unfolding pc by (rule r)
next
  case True
  define py px where "py = y - dir_y" and "px = x - dir_x"
  define mp where "mp = min_prev_aggregated (pv py px)"
  define g where "g d = c y x d + (min_transition_cost (pv py px) mp d - mp)" for d
  have ne: "py \<noteq> y \<or> px \<noteq> x" using assms by (auto simp: py_def px_def)
  let ?body = "\<lambda>d v. store v y x d (c y x d + (min_transition_cost (v py px) mp d - mp))"
  let ?I = "\<lambda>i v. v = (\<lambda>y' x' d'. if y' = y \<and> x' = x \<and> 0 \<le> d' \<and> d' < i then g d' else pv y' x' d')"
  have "aggregate_pixel c dir_y dir_x y x pv = for_lt 0 MAX_DISP ?body pv"
    using True by (simp add: aggregate_pixel_def in_grid_def Let_def py_def px_def mp_def)
  also have "?I MAX_DISP (for_lt 0 MAX_DISP ?body pv)"
  proof (rule for_lt_rule [where I = ?I])
    show "?I 0 pv" by (auto simp: fun_eq_iff)
    show "0 \<le> MAX_DISP" by (simp add: MAX_DISP_def)
  next
    fix i v assume "0 \<le> i" "i < MAX_DISP" and v: "?I i v"
    have "v py px = pv py px" using ne by (subst v) (auto simp: fun_eq_iff)
    then have "?body i v = store v y x i (g i)" by (simp add: g_def)
    also have "\<dots> = (\<lambda>y' x' d'. if y' = y \<and> x' = x \<and> 0 \<le> d' \<and> d' < i + 1 then g d' else pv y' x' d')"
      using \<open>0 \<le> i\<close> by (subst v) (auto simp: store_def fun_eq_iff)
    finally show "?I (i + 1) (?body i v)" .
  qed
  finally have r: "aggregate_pixel c dir_y dir_x y x pv =
      (\<lambda>y' x' d'. if y' = y \<and> x' = x \<and> 0 \<le> d' \<and> d' < MAX_DISP
            then g d' else pv y' x' d')" .
  have pc: "\<And>d. path_cell c dir_y dir_x pv y x d = g d"
    using True by (simp add: path_cell_def g_def mp_def py_def px_def)
  show ?thesis unfolding pc by (rule r)
qed

lemma row_major_inj:
  fixes a b a' b' :: int
  assumes "0 \<le> b" "b < 272" "0 \<le> b'" "b' < 272" "a * 272 + b = a' * 272 + b'"
  shows "a = a' \<and> b = b'"
proof -
  have "a = a'"
  proof (rule ccontr)
    assume "a \<noteq> a'"
    then consider "a \<le> a' - 1" | "a' \<le> a - 1" by linarith
    then show False using assms by cases linarith+
  qed
  then show ?thesis using assms(5) by simp
qed

lemma scan_rank_inj:
  assumes "in_grid y x" "in_grid y' x'" "scan_rank dir_y dir_x y x = scan_rank dir_y dir_x y' x'"
  shows "y = y' \<and> x = x'"
proof -
  have b: "0 \<le> scan_pos WIDTH dir_x x" "scan_pos WIDTH dir_x x < 272"
       "0 \<le> scan_pos WIDTH dir_x x'" "scan_pos WIDTH dir_x x' < 272"
    using assms(1,2) by (auto simp: in_grid_def scan_pos_def WIDTH_def)
  have "scan_pos HEIGHT dir_y y * 272 + scan_pos WIDTH dir_x x =
        scan_pos HEIGHT dir_y y' * 272 + scan_pos WIDTH dir_x x'"
    using assms(3) by (simp add: scan_rank_def WIDTH_def)
  from row_major_inj [OF b this]
  show ?thesis by (auto simp: scan_pos_def split: if_splits)
qed

lemma scan_rank_pred:
  assumes "dir_y \<noteq> 0 \<or> dir_x \<noteq> 0" "in_grid y x" "in_grid (y - dir_y) (x - dir_x)"
  shows "scan_rank dir_y dir_x (y - dir_y) (x - dir_x) < scan_rank dir_y dir_x y x"
proof -
  have a: "0 \<le> scan_pos WIDTH dir_x x" "scan_pos WIDTH dir_x (x - dir_x) < 272"
    using assms(2,3) by (auto simp: in_grid_def scan_pos_def WIDTH_def)
  have "scan_pos HEIGHT dir_y (y - dir_y) \<le> scan_pos HEIGHT dir_y y - 1 \<or>
        (scan_pos HEIGHT dir_y (y - dir_y) = scan_pos HEIGHT dir_y y \<and>
         scan_pos WIDTH dir_x (x - dir_x) < scan_pos WIDTH dir_x x)"
    using assms(1) by (auto simp: scan_pos_def)
  then show ?thesis
  proof
    assume "scan_pos HEIGHT dir_y (y - dir_y) \<le> scan_pos HEIGHT dir_y y - 1"
    then show ?thesis using a by (simp add: scan_rank_def WIDTH_def)
  next
    assume "scan_pos HEIGHT dir_y (y - dir_y) = scan_pos HEIGHT dir_y y \<and>
         scan_pos WIDTH dir_x (x - dir_x) < scan_pos WIDTH dir_x x"
    then show ?thesis by (simp add: scan_rank_def)
  qed
qed

lemma scan_rank_nonneg:
  assumes "in_grid y x"
  shows "0 \<le> scan_rank dir_y dir_x y x"
proof -
  have "0 \<le> scan_pos HEIGHT dir_y y" "0 \<le> scan_pos WIDTH dir_x x"
    using assms by (auto simp: in_grid_def scan_pos_def)
  then show ?thesis by (simp add: scan_rank_def WIDTH_def)
qed

lemma path_cell_cong:
  assumes "pv' (y - dir_y) (x - dir_x) = pv (y - dir_y) (x - dir_x)"
  shows "path_cell c dir_y dir_x pv' y x d = path_cell c dir_y dir_x pv y x d"
  using assms by (simp add: path_cell_def)

lemma scanned_step:
  assumes dir: "dir_y \<noteq> 0 \<or> dir_x \<noteq> 0"
    and inv: "scanned c dir_y dir_x pv0 t pv"
    and p: "in_grid y x" "scan_rank dir_y dir_x y x = t"
  shows "scanned c dir_y dir_x pv0 (t + 1) (aggregate_pixel c dir_y dir_x y x pv)"
proof -
  define pv' where "pv' = aggregate_pixel c dir_y dir_x y x pv"
  have pv': "\<And>y' x' d'. pv' y' x' d' = (if y' = y \<and> x' = x \<and> 0 \<le> d' \<and> d' < MAX_DISP
            then path_cell c dir_y dir_x pv y x d' else pv y' x' d')"
    unfolding pv'_def aggregate_pixel_cells [OF dir] by simp
  have old: "\<And>y' x' d'. pv y' x' d' =
        (if in_grid y' x' \<and> scan_rank dir_y dir_x y' x' < t \<and> 0 \<le> d' \<and> d' < MAX_DISP
         then path_cell c dir_y dir_x pv y' x' d' else pv0 y' x' d')"
    using inv unfolding scanned_def by blast
  have other: "pv' y' x' = pv y' x'" if "y' \<noteq> y \<or> x' \<noteq> x" for y' x'
    using that by (auto simp: pv' fun_eq_iff)
  have prev_keep: "path_cell c dir_y dir_x pv' y' x' d' = path_cell c dir_y dir_x pv y' x' d'"
    if q: "in_grid y' x'" "scan_rank dir_y dir_x y' x' \<le> t" for y' x' d'
  proof (cases "in_grid (y' - dir_y) (x' - dir_x)")
    case False
    then show ?thesis by (simp add: path_cell_def)
  next
    case True
    have "scan_rank dir_y dir_x (y' - dir_y) (x' - dir_x) < t"
      using scan_rank_pred [OF dir q(1) True] q(2) by simp
    then have "y' - dir_y \<noteq> y \<or> x' - dir_x \<noteq> x" using p(2) by auto
    then show ?thesis by (intro path_cell_cong other)
  qed
  have "pv' y' x' d' =
        (if in_grid y' x' \<and> scan_rank dir_y dir_x y' x' < t + 1 \<and> 0 \<le> d' \<and> d' < MAX_DISP
         then path_cell c dir_y dir_x pv' y' x' d' else pv0 y' x' d')" for y' x' d'
  proof (cases "y' = y \<and> x' = x")
    case True
    show ?thesis
    proof (cases "0 \<le> d' \<and> d' < MAX_DISP")
      case d: True
      have "pv' y' x' d' = path_cell c dir_y dir_x pv y x d'" using True d by (simp add: pv')
      also have "\<dots> = path_cell c dir_y dir_x pv' y x d'"
        using prev_keep [of y x d'] p by simp
      finally show ?thesis using True d p by simp
    next
      case d: False
      have "pv' y' x' d' = pv y' x' d'" using d by (auto simp: pv')
      also have "\<dots> = pv0 y' x' d'" using d old [of y' x' d'] by auto
      finally show ?thesis using d by auto
    qed
  next
    case False
    have keep: "pv' y' x' d' = pv y' x' d'" using False by (auto simp: pv')
    show ?thesis
    proof (cases "in_grid y' x' \<and> scan_rank dir_y dir_x y' x' < t \<and> 0 \<le> d' \<and> d' < MAX_DISP")
      case True
      then have "pv y' x' d' = path_cell c dir_y dir_x pv y' x' d'" by (subst old) simp
      also have "\<dots> = path_cell c dir_y dir_x pv' y' x' d'"
        using prev_keep [of y' x' d'] True by simp
      finally show ?thesis using True keep by simp
    next
      case F: False
      have "pv y' x' d' = pv0 y' x' d'" using F old [of y' x' d'] by (simp only: if_False)
      moreover have "\<not> (in_grid y' x' \<and> scan_rank dir_y dir_x y' x' < t + 1 \<and> 0 \<le> d' \<and> d' < MAX_DISP)"
      proof
        assume a: "in_grid y' x' \<and> scan_rank dir_y dir_x y' x' < t + 1 \<and> 0 \<le> d' \<and> d' < MAX_DISP"
        then have "scan_rank dir_y dir_x y' x' = t" using F by auto
        then have "y' = y \<and> x' = x" using scan_rank_inj [of y' x' y x dir_y dir_x] a p by simp
        then show False using False by simp
      qed
      ultimately show ?thesis using keep by (simp only: if_False)
    qed
  qed
  then show ?thesis unfolding scanned_def pv'_def by blast
qed

text \<open>Both \<^verbatim>\<open>!=\<close> loops leave, for every direction vector.\<close>

lemma aggregate_path_returns:
  "aggregate_path_hls c pv dir_y dir_x = Some (aggregate_scan c pv dir_y dir_x)"
proof -
  define ys yst xs xst where "ys = (if dir_y \<ge> 0 then 0 else HEIGHT - 1)"
    and "yst = (if dir_y \<ge> 0 then 1 else - 1 :: int)"
    and "xs = (if dir_x \<ge> 0 then 0 else WIDTH - 1)"
    and "xst = (if dir_x \<ge> 0 then 1 else - 1 :: int)"
  have ye: "(if dir_y \<ge> 0 then HEIGHT else - 1) = ys + int (nat HEIGHT) * yst"
    by (simp add: ys_def yst_def HEIGHT_def)
  have xe: "(if dir_x \<ge> 0 then WIDTH else - 1) = xs + int (nat WIDTH) * xst"
    by (simp add: xs_def xst_def WIDTH_def)
  have st: "yst \<noteq> 0" "xst \<noteq> 0" by (simp_all add: yst_def xst_def)
  have row: "for_ne xs (xs + int (nat WIDTH) * xst) xst (\<lambda>x pcv. Some (aggregate_pixel c dir_y dir_x y x pcv)) =
             (\<lambda>pcv. Some (for_count (nat WIDTH) xs xst (\<lambda>x. aggregate_pixel c dir_y dir_x y x) pcv))" for y
    by (rule ext) (rule for_ne_count [OF st(2)])
  have "aggregate_path_hls c pv dir_y dir_x =
        for_ne ys (ys + int (nat HEIGHT) * yst) yst
          (\<lambda>y. for_ne xs (xs + int (nat WIDTH) * xst) xst (\<lambda>x pcv. Some (aggregate_pixel c dir_y dir_x y x pcv))) pv"
    unfolding aggregate_path_hls_def Let_def ye xe ys_def [symmetric] yst_def [symmetric]
      xs_def [symmetric] xst_def [symmetric] ..
  also have "\<dots> = Some (for_count (nat HEIGHT) ys yst
          (\<lambda>y. for_count (nat WIDTH) xs xst (\<lambda>x. aggregate_pixel c dir_y dir_x y x)) pv)"
    unfolding row by (rule for_ne_count [OF st(1)])
  finally show ?thesis
    unfolding aggregate_scan_def ys_def yst_def xs_def xst_def .
qed

lemma aggregate_scan_scanned:
  assumes dir: "dir_y \<noteq> 0 \<or> dir_x \<noteq> 0"
  shows "scanned c dir_y dir_x pv0 (HEIGHT * WIDTH) (aggregate_scan c pv0 dir_y dir_x)"
proof -
  define ys yst xs xst where "ys = (if dir_y \<ge> 0 then 0 else HEIGHT - 1)"
    and "yst = (if dir_y \<ge> 0 then 1 else - 1 :: int)"
    and "xs = (if dir_x \<ge> 0 then 0 else WIDTH - 1)"
    and "xst = (if dir_x \<ge> 0 then 1 else - 1 :: int)"
  have ypos: "scan_pos HEIGHT dir_y (ys + int k * yst) = int k" for k
    by (simp add: scan_pos_def ys_def yst_def)
  have xpos: "scan_pos WIDTH dir_x (xs + int j * xst) = int j" for j
    by (simp add: scan_pos_def xs_def xst_def)
  have grid: "in_grid (ys + int k * yst) (xs + int j * xst)" if "k < nat HEIGHT" "j < nat WIDTH" for k j
    using that by (auto simp: in_grid_def ys_def yst_def xs_def xst_def)
  have row: "scanned c dir_y dir_x pv0 (int (Suc k) * WIDTH)
               (for_count (nat WIDTH) xs xst (\<lambda>x. aggregate_pixel c dir_y dir_x (ys + int k * yst) x) pv)"
    if k: "k < nat HEIGHT" and inv: "scanned c dir_y dir_x pv0 (int k * WIDTH) pv" for k pv
  proof -
    have "scanned c dir_y dir_x pv0 (int k * WIDTH + int (nat WIDTH))
               (for_count (nat WIDTH) xs xst (\<lambda>x. aggregate_pixel c dir_y dir_x (ys + int k * yst) x) pv)"
    proof (rule for_count_rule [where I = "\<lambda>j. scanned c dir_y dir_x pv0 (int k * WIDTH + int j)"])
      show "scanned c dir_y dir_x pv0 (int k * WIDTH + int 0) pv" using inv by simp
    next
      fix j s assume j: "j < nat WIDTH" and s: "scanned c dir_y dir_x pv0 (int k * WIDTH + int j) s"
      have "scanned c dir_y dir_x pv0 (int k * WIDTH + int j + 1)
              (aggregate_pixel c dir_y dir_x (ys + int k * yst) (xs + int j * xst) s)"
        by (rule scanned_step [OF dir s grid [OF k j]]) (simp add: scan_rank_def ypos xpos)
      then show "scanned c dir_y dir_x pv0 (int k * WIDTH + int (Suc j))
              (aggregate_pixel c dir_y dir_x (ys + int k * yst) (xs + int j * xst) s)"
        by (simp add: ac_simps)
    qed
    moreover have "int k * WIDTH + int (nat WIDTH) = int (Suc k) * WIDTH"
      by (simp add: WIDTH_def algebra_simps)
    ultimately show ?thesis by (simp only:)
  qed
  have "scanned c dir_y dir_x pv0 (int (nat HEIGHT) * WIDTH)
          (for_count (nat HEIGHT) ys yst
             (\<lambda>y. for_count (nat WIDTH) xs xst (\<lambda>x. aggregate_pixel c dir_y dir_x y x)) pv0)"
  proof (rule for_count_rule [where I = "\<lambda>k. scanned c dir_y dir_x pv0 (int k * WIDTH)"])
    show "scanned c dir_y dir_x pv0 (int 0 * WIDTH) pv0"
      using scan_rank_nonneg [of _ _ dir_y dir_x] by (fastforce simp: scanned_def)
  next
    fix k s assume "k < nat HEIGHT" "scanned c dir_y dir_x pv0 (int k * WIDTH) s"
    then show "scanned c dir_y dir_x pv0 (int (Suc k) * WIDTH)
          (for_count (nat WIDTH) xs xst (\<lambda>x. aggregate_pixel c dir_y dir_x (ys + int k * yst) x) s)"
      by (rule row)
  qed
  moreover have "int (nat HEIGHT) = HEIGHT" by (simp add: HEIGHT_def)
  ultimately show ?thesis
    unfolding aggregate_scan_def ys_def yst_def xs_def xst_def by (simp only:)
qed

lemma scan_rank_bound:
  assumes "in_grid y x"
  shows "scan_rank dir_y dir_x y x < HEIGHT * WIDTH"
proof -
  have "scan_pos HEIGHT dir_y y \<le> 239" "scan_pos WIDTH dir_x x \<le> 271"
    using assms by (auto simp: in_grid_def scan_pos_def HEIGHT_def WIDTH_def)
  then show ?thesis by (simp add: scan_rank_def HEIGHT_def WIDTH_def)
qed

lemma aggregate_scan_cells:
  assumes dir: "dir_y \<noteq> 0 \<or> dir_x \<noteq> 0"
  shows "aggregate_scan c pv0 dir_y dir_x y x d =
         (if in_grid y x \<and> 0 \<le> d \<and> d < MAX_DISP
          then path_cell c dir_y dir_x (aggregate_scan c pv0 dir_y dir_x) y x d
          else pv0 y x d)"
proof -
  have "aggregate_scan c pv0 dir_y dir_x y x d =
    (if in_grid y x \<and> scan_rank dir_y dir_x y x < HEIGHT * WIDTH \<and> 0 \<le> d \<and> d < MAX_DISP
     then path_cell c dir_y dir_x (aggregate_scan c pv0 dir_y dir_x) y x d else pv0 y x d)"
    using aggregate_scan_scanned [OF dir, of c pv0] unfolding scanned_def by blast
  then show ?thesis using scan_rank_bound [of y x dir_y dir_x] by auto
qed

section \<open>The two minima\<close>

lemma upto_plus_one:
  fixes i :: int
  assumes "0 \<le> i"
  shows "{0..<i + 1} = insert i {0..<i}"
  using assms by auto

lemma min_prev_aggregated_Min: "min_prev_aggregated prev = Min (prev ` {0..<MAX_DISP})"
proof -
  have "1 \<le> MAX_DISP \<and>
        for_lt 1 MAX_DISP (\<lambda>i m. if prev i < m then prev i else m) (prev 0) =
        Min (prev ` {0..<MAX_DISP})"
  proof (rule for_lt_rule [where I = "\<lambda>i m. 1 \<le> i \<and> m = Min (prev ` {0..<i})"])
  have "{0..<1::int} = {0}" by auto
  then show "1 \<le> (1::int) \<and> prev 0 = Min (prev ` {0..<1})" by simp
  show "1 \<le> MAX_DISP" by (simp add: MAX_DISP_def)
next
  fix i m assume i: "1 \<le> i" "i < MAX_DISP" and m: "1 \<le> i \<and> m = Min (prev ` {0..<i})"
  have ne: "prev ` {0..<i} \<noteq> {}" using i by auto
  have "Min (prev ` {0..<i + 1}) = min (prev i) (Min (prev ` {0..<i}))"
    using i ne by (simp add: upto_plus_one)
  also have "\<dots> = min (prev i) m" using m by (simp only:)
  also have "\<dots> = (if prev i < m then prev i else m)" by (auto simp: min_def)
  finally show "1 \<le> i + 1 \<and> (if prev i < m then prev i else m) = Min (prev ` {0..<i + 1})"
    using i by simp
  qed
  then show ?thesis by (simp add: min_prev_aggregated_def)
qed

lemma min_prev_le:
  assumes "0 \<le> d" "d < MAX_DISP"
  shows "min_prev_aggregated prev \<le> prev d"
  unfolding min_prev_aggregated_Min using assms by (intro Min_le) auto

lemma min_prev_attained:
  "\<exists>d. 0 \<le> d \<and> d < MAX_DISP \<and> min_prev_aggregated prev = prev d"
proof -
  have "Min (prev ` {0..<MAX_DISP}) \<in> prev ` {0..<MAX_DISP}"
    by (intro Min_in) (auto simp: MAX_DISP_def)
  then show ?thesis unfolding min_prev_aggregated_Min by auto
qed

lemma min_prev_cong:
  assumes "\<And>d. 0 \<le> d \<Longrightarrow> d < MAX_DISP \<Longrightarrow> prev d = prev' d"
  shows "min_prev_aggregated prev = min_prev_aggregated prev'"
proof -
  have "prev ` {0..<MAX_DISP} = prev' ` {0..<MAX_DISP}"
    using assms by (intro image_cong) auto
  then show ?thesis by (simp add: min_prev_aggregated_Min)
qed

lemma min_transition_cost_min:
  "min_transition_cost prev mp d =
     min (min (min (prev d) (if d > 0 then prev (d - 1) + P1_PENALTY else 2000))
              (if d < MAX_DISP - 1 then prev (d + 1) + P1_PENALTY else 2000))
         (mp + P2_PENALTY)"
  unfolding min_transition_cost_def Let_def by (simp add: min_def)

text \<open>
  Where the previous pixel's cost at \<open>d\<close> is at most 2000, the constant 2000 of the code is
  never the only smallest candidate, so any larger value in its place selects the same.
\<close>

lemma min_transition_spec:
  assumes "2000 \<le> large" and "prev d \<le> 2000"
  shows "min_transition_cost prev (min_prev_aggregated prev) d = spec_transitionMin large prev d"
proof -
  have a: "min (prev d) large = prev d" "min (prev d) 2000 = prev d"
    using assms by simp_all
  have m: "min_prev_aggregated prev = spec_minPrev prev"
    by (simp add: spec_minPrev_def min_prev_aggregated_Min)
  have "min_transition_cost prev (spec_minPrev prev) d =
        min (min (min (prev d) (if d > 0 then prev (d - 1) + P1_PENALTY else 2000))
              (if d < MAX_DISP - 1 then prev (d + 1) + P1_PENALTY else 2000))
         (spec_minPrev prev + P2_PENALTY)"
    by (rule min_transition_cost_min)
  also have "\<dots> = spec_transitionMin large prev d"
  proof (cases "d > 0")
    case d: True
    show ?thesis
    proof (cases "d < MAX_DISP - 1")
      case True
      then show ?thesis using d
        by (simp add: spec_transitionMin_def min.assoc min.commute min.left_commute)
    next
      case False
      have "min (prev (d - 1) + P1_PENALTY) (min (prev d) 2000) =
            min (prev (d - 1) + P1_PENALTY) (min (prev d) large)"
        unfolding a ..
      then show ?thesis using d False
        by (simp add: spec_transitionMin_def min.assoc min.commute min.left_commute)
    qed
  next
    case d: False
    show ?thesis
    proof (cases "d < MAX_DISP - 1")
      case True
      have "min (prev (d + 1) + P1_PENALTY) (min (prev d) 2000) =
            min (prev (d + 1) + P1_PENALTY) (min (prev d) large)"
        unfolding a ..
      then show ?thesis using d True
        by (simp add: spec_transitionMin_def min.assoc min.commute min.left_commute)
    next
      case False
      then show ?thesis using d a
        by (simp add: spec_transitionMin_def min.assoc min.commute min.left_commute)
    qed
  qed
  finally show ?thesis unfolding m .
qed

lemma min_transition_cong:
  assumes "\<And>d. 0 \<le> d \<Longrightarrow> d < MAX_DISP \<Longrightarrow> prev d = prev' d" "0 \<le> d" "d < MAX_DISP"
  shows "min_transition_cost prev mp d = min_transition_cost prev' mp d"
proof -
  have "prev d = prev' d" using assms by simp
  moreover have "d > 0 \<Longrightarrow> prev (d - 1) = prev' (d - 1)" using assms by simp
  moreover have "d < MAX_DISP - 1 \<Longrightarrow> prev (d + 1) = prev' (d + 1)" using assms by simp
  ultimately show ?thesis unfolding min_transition_cost_min by auto
qed

lemma min_transition_le_jump: "min_transition_cost prev mp d \<le> mp + P2_PENALTY"
  unfolding min_transition_cost_min by simp

lemma min_transition_le_same: "min_transition_cost prev mp d \<le> prev d"
  unfolding min_transition_cost_min by simp

lemma min_transition_ge:
  assumes "0 \<le> d" "d < MAX_DISP" "min_prev_aggregated prev \<le> 2000"
  shows "min_prev_aggregated prev \<le> min_transition_cost prev (min_prev_aggregated prev) d"
proof -
  have a: "min_prev_aggregated prev \<le> prev d" using assms by (intro min_prev_le)
  have b: "min_prev_aggregated prev \<le> prev (d - 1)" if "d > 0"
    using assms that by (intro min_prev_le) auto
  have c: "min_prev_aggregated prev \<le> prev (d + 1)" if "d < MAX_DISP - 1"
    using assms that by (intro min_prev_le) auto
  show ?thesis unfolding min_transition_cost_min
    using a b c assms(3) by (auto simp: P1_PENALTY_def P2_PENALTY_def)
qed

lemma path_cell_cong_grid:
  assumes "\<And>e. 0 \<le> e \<Longrightarrow> e < MAX_DISP \<Longrightarrow>
             pv (y - dir_y) (x - dir_x) e = pv' (y - dir_y) (x - dir_x) e"
    and "c y x d = c' y x d" "0 \<le> d" "d < MAX_DISP"
  shows "path_cell c dir_y dir_x pv y x d = path_cell c' dir_y dir_x pv' y x d"
proof -
  have m: "min_prev_aggregated (pv (y - dir_y) (x - dir_x)) =
           min_prev_aggregated (pv' (y - dir_y) (x - dir_x))"
    by (rule min_prev_cong) (rule assms(1))
  have t: "min_transition_cost (pv (y - dir_y) (x - dir_x)) mp d =
           min_transition_cost (pv' (y - dir_y) (x - dir_x)) mp d" for mp
    by (rule min_transition_cong) (use assms in auto)
  show ?thesis unfolding path_cell_def m t assms(2) ..
qed

text \<open>
  Induction along a path: a property holds at every pixel of the grid if it holds at a pixel
  whenever it holds at the previous pixel of the path, when that one is in the grid.
\<close>

lemma grid_induct [consumes 2, case_names pixel]:
  assumes dir: "dir_y \<noteq> 0 \<or> dir_x \<noteq> 0" and g: "in_grid y x"
    and step: "\<And>y x. in_grid y x \<Longrightarrow>
                 (in_grid (y - dir_y) (x - dir_x) \<Longrightarrow> P (y - dir_y) (x - dir_x)) \<Longrightarrow> P y x"
  shows "P y x"
  using g
proof (induction "nat (scan_rank dir_y dir_x y x)" arbitrary: y x rule: less_induct)
  case less
  show ?case
  proof (rule step [OF less.prems])
    assume p: "in_grid (y - dir_y) (x - dir_x)"
    have "scan_rank dir_y dir_x (y - dir_y) (x - dir_x) < scan_rank dir_y dir_x y x"
      by (rule scan_rank_pred [OF dir less.prems p])
    moreover have "0 \<le> scan_rank dir_y dir_x (y - dir_y) (x - dir_x)"
      by (rule scan_rank_nonneg [OF p])
    ultimately have "nat (scan_rank dir_y dir_x (y - dir_y) (x - dir_x)) < nat (scan_rank dir_y dir_x y x)"
      by simp
    then show "P (y - dir_y) (x - dir_x)" using p by (rule less.hyps)
  qed
qed

section \<open>The aggregated volume\<close>

lemma aggregate_scan_boundary:
  assumes "dir_y \<noteq> 0 \<or> dir_x \<noteq> 0" "in_grid y x" "\<not> in_grid (y - dir_y) (x - dir_x)"
    "0 \<le> d" "d < MAX_DISP"
  shows "aggregate_scan c pv dir_y dir_x y x d = c y x d"
  using assms by (subst aggregate_scan_cells) (simp_all add: path_cell_def)

lemma aggregate_scan_recurrence:
  assumes "dir_y \<noteq> 0 \<or> dir_x \<noteq> 0" "in_grid y x" "in_grid (y - dir_y) (x - dir_x)"
    "0 \<le> d" "d < MAX_DISP"
  shows "aggregate_scan c pv dir_y dir_x y x d =
         c y x d + (min_transition_cost (aggregate_scan c pv dir_y dir_x (y - dir_y) (x - dir_x))
                      (min_prev_aggregated (aggregate_scan c pv dir_y dir_x (y - dir_y) (x - dir_x))) d
                    - min_prev_aggregated (aggregate_scan c pv dir_y dir_x (y - dir_y) (x - dir_x)))"
  using assms by (subst aggregate_scan_cells) (simp_all add: path_cell_def)

lemma aggregate_scan_le:
  assumes dir: "dir_y \<noteq> 0 \<or> dir_x \<noteq> 0" and g: "in_grid y x" and d: "0 \<le> d" "d < MAX_DISP"
  shows "aggregate_scan c pv dir_y dir_x y x d \<le> c y x d + P2_PENALTY"
proof (cases "in_grid (y - dir_y) (x - dir_x)")
  case True
  show ?thesis
    unfolding aggregate_scan_recurrence [OF dir g True d]
    using min_transition_le_jump
      [of "aggregate_scan c pv dir_y dir_x (y - dir_y) (x - dir_x)"
          "min_prev_aggregated (aggregate_scan c pv dir_y dir_x (y - dir_y) (x - dir_x))" d]
    by simp
next
  case False
  show ?thesis unfolding aggregate_scan_boundary [OF dir g False d]
    by (simp add: P2_PENALTY_def)
qed

lemma aggregate_scan_ge:
  assumes dir: "dir_y \<noteq> 0 \<or> dir_x \<noteq> 0" and g: "in_grid y x" and d: "0 \<le> d" "d < MAX_DISP"
    and low: "in_grid (y - dir_y) (x - dir_x) \<Longrightarrow>
              \<exists>e. 0 \<le> e \<and> e < MAX_DISP \<and> c (y - dir_y) (x - dir_x) e \<le> 1872"
  shows "c y x d \<le> aggregate_scan c pv dir_y dir_x y x d"
proof (cases "in_grid (y - dir_y) (x - dir_x)")
  case True
  define prev where "prev = aggregate_scan c pv dir_y dir_x (y - dir_y) (x - dir_x)"
  obtain e where e: "0 \<le> e" "e < MAX_DISP" "c (y - dir_y) (x - dir_x) e \<le> 1872"
    using low [OF True] by blast
  have "min_prev_aggregated prev \<le> prev e" using e by (intro min_prev_le)
  also have "prev e \<le> c (y - dir_y) (x - dir_x) e + P2_PENALTY"
    unfolding prev_def by (rule aggregate_scan_le [OF dir True e(1,2)])
  also have "\<dots> \<le> 2000" using e(3) by (simp add: P2_PENALTY_def)
  finally have "min_prev_aggregated prev \<le> min_transition_cost prev (min_prev_aggregated prev) d"
    using d by (intro min_transition_ge)
  then show ?thesis
    unfolding aggregate_scan_recurrence [OF dir g True d] prev_def by simp
next
  case False
  show ?thesis unfolding aggregate_scan_boundary [OF dir g False d] by simp
qed

lemma aggregate_scan_zero:
  assumes dir: "dir_y \<noteq> 0 \<or> dir_x \<noteq> 0" and g: "in_grid y x"
    and nonneg: "\<And>y x d. in_grid y x \<Longrightarrow> 0 \<le> d \<Longrightarrow> d < MAX_DISP \<Longrightarrow> 0 \<le> c y x d"
    and zero: "\<And>y x. in_grid y x \<Longrightarrow> c y x 0 = 0"
  shows "aggregate_scan c pv dir_y dir_x y x 0 = 0 \<and>
         (\<forall>d. 0 \<le> d \<and> d < MAX_DISP \<longrightarrow> 0 \<le> aggregate_scan c pv dir_y dir_x y x d)"
  using dir g
proof (induction rule: grid_induct)
  case (pixel y x)
  have d0: "(0::int) \<le> 0" "0 < MAX_DISP" by (simp_all add: MAX_DISP_def)
  show ?case
  proof (cases "in_grid (y - dir_y) (x - dir_x)")
    case False
    show ?thesis
      using aggregate_scan_boundary [OF dir pixel(1) False, of _ c pv] nonneg [OF pixel(1)]
        zero [OF pixel(1)] d0 by auto
  next
    case True
    define prev where "prev = aggregate_scan c pv dir_y dir_x (y - dir_y) (x - dir_x)"
    have p0: "prev 0 = 0" and pn: "\<And>d. 0 \<le> d \<Longrightarrow> d < MAX_DISP \<Longrightarrow> 0 \<le> prev d"
      using pixel(2) [OF True] unfolding prev_def by auto
    have mp: "min_prev_aggregated prev = 0"
    proof (rule antisym)
      show "min_prev_aggregated prev \<le> 0" using min_prev_le [OF d0, of prev] p0 by simp
      show "0 \<le> min_prev_aggregated prev" using min_prev_attained [of prev] pn by auto
    qed
    have rec: "aggregate_scan c pv dir_y dir_x y x d = c y x d + min_transition_cost prev 0 d"
      if "0 \<le> d" "d < MAX_DISP" for d
      unfolding aggregate_scan_recurrence [OF dir pixel(1) True that] prev_def [symmetric] mp
      by simp
    have t0: "min_transition_cost prev 0 0 = 0"
      using pn [of 1] p0
      by (simp add: min_transition_cost_min P1_PENALTY_def P2_PENALTY_def MAX_DISP_def)
    have tn: "0 \<le> min_transition_cost prev 0 d" if "0 \<le> d" "d < MAX_DISP" for d
      using min_transition_ge [OF that, of prev] mp by simp
    show ?thesis
      using rec t0 tn nonneg [OF pixel(1)] zero [OF pixel(1)] d0
      by (auto simp: add_nonneg_nonneg)
  qed
qed

lemma aggregate_scan_indep:
  assumes dir: "dir_y \<noteq> 0 \<or> dir_x \<noteq> 0" and g: "in_grid y x"
    and c: "\<And>y x d. in_grid y x \<Longrightarrow> 0 \<le> d \<Longrightarrow> d < MAX_DISP \<Longrightarrow> c y x d = c' y x d"
  shows "\<forall>d. 0 \<le> d \<and> d < MAX_DISP \<longrightarrow>
           aggregate_scan c pv dir_y dir_x y x d = aggregate_scan c' pv' dir_y dir_x y x d"
  using dir g
proof (induction rule: grid_induct)
  case (pixel y x)
  show ?case
  proof (intro allI impI)
    fix d assume d: "0 \<le> d \<and> d < MAX_DISP"
    have "path_cell c dir_y dir_x (aggregate_scan c pv dir_y dir_x) y x d =
          path_cell c' dir_y dir_x (aggregate_scan c' pv' dir_y dir_x) y x d"
    proof (cases "in_grid (y - dir_y) (x - dir_x)")
      case True
      show ?thesis
        by (rule path_cell_cong_grid) (use pixel(2) [OF True] c [OF pixel(1)] d in auto)
    next
      case False
      then show ?thesis using c [OF pixel(1)] d by (simp add: path_cell_def)
    qed
    then show "aggregate_scan c pv dir_y dir_x y x d = aggregate_scan c' pv' dir_y dir_x y x d"
      using pixel(1) d
      by (simp add: aggregate_scan_cells [OF dir, of c pv y x d]
          aggregate_scan_cells [OF dir, of c' pv' y x d])
  qed
qed

section \<open>Winner-take-all\<close>

lemma select_disparity_scan:
  fixes plr prl ptb pbt y x
  defines "t \<equiv> total_cost plr prl ptb pbt y x"
    and "b \<equiv> select_disparity plr prl ptb pbt y x"
  shows "if \<forall>d. 0 \<le> d \<and> d < MAX_DISP \<longrightarrow> 1000000000 \<le> t d
         then b = 0
         else 0 \<le> b \<and> b < MAX_DISP \<and> t b < 1000000000 \<and>
              (\<forall>d. 0 \<le> d \<and> d < MAX_DISP \<longrightarrow> t b \<le> t d) \<and>
              (\<forall>d. 0 \<le> d \<and> d < b \<longrightarrow> t b < t d)"
proof -
  define I where "I i s =
    (if \<forall>d. 0 \<le> d \<and> d < i \<longrightarrow> 1000000000 \<le> t d
     then fst s = 1000000000 \<and> snd s = 0
     else 0 \<le> snd s \<and> snd s < i \<and> fst s = t (snd s) \<and> fst s < 1000000000 \<and>
          (\<forall>d. 0 \<le> d \<and> d < i \<longrightarrow> fst s \<le> t d) \<and>
          (\<forall>d. 0 \<le> d \<and> d < snd s \<longrightarrow> fst s < t d))" for i :: int and s :: "real \<times> int"
  define body where "body = (\<lambda>d (min_total_cost, best_disparity).
               let total_aggregated_cost = plr y x d + prl y x d + ptb y x d + pbt y x d in
               if total_aggregated_cost < min_total_cost
               then (total_aggregated_cost, d)
               else (min_total_cost, best_disparity))"
  have body: "body i (m, c) = (if t i < m then (t i, i) else (m, c))" for i m c
    by (simp add: body_def t_def total_cost_def)
  have "I MAX_DISP (for_lt 0 MAX_DISP body (1000000000, 0))"
  proof (rule for_lt_rule [where I = I])
    show "I 0 (1000000000, 0)" by (simp add: I_def)
    show "0 \<le> MAX_DISP" by (simp add: MAX_DISP_def)
  next
    fix i :: int and s :: "real \<times> int"
    assume i: "0 \<le> i" "i < MAX_DISP" and inv: "I i s"
    obtain m c where s: "s = (m, c)" by (cases s)
    have split: "(0 \<le> d \<and> d < i + 1) = ((0 \<le> d \<and> d < i) \<or> d = i)" for d
      using i by auto
    show "I (i + 1) (body i s)"
    proof (cases "\<forall>d. 0 \<le> d \<and> d < i \<longrightarrow> 1000000000 \<le> t d")
      case True
      then have mc: "m = 1000000000" "c = 0" using inv by (simp_all add: I_def s)
      show ?thesis
      proof (cases "t i < 1000000000")
        case lt: True
        have "\<not> (\<forall>d. 0 \<le> d \<and> d < i + 1 \<longrightarrow> 1000000000 \<le> t d)"
          using lt i by (auto intro!: exI [of _ i])
        moreover have "\<forall>d. 0 \<le> d \<and> d < i + 1 \<longrightarrow> t i \<le> t d"
          using True lt unfolding split by auto
        moreover have "\<forall>d. 0 \<le> d \<and> d < i \<longrightarrow> t i < t d"
          using True lt by auto
        ultimately show ?thesis using lt i by (simp add: I_def s body mc)
      next
        case ge: False
        have "\<forall>d. 0 \<le> d \<and> d < i + 1 \<longrightarrow> 1000000000 \<le> t d"
          using True ge unfolding split by auto
        then show ?thesis using ge by (simp add: I_def s body mc)
      qed
    next
      case False
      from iffD1 [OF if_not_P [OF False] inv [unfolded I_def]]
      have old: "0 \<le> c" "c < i" "m = t c" "m < 1000000000"
        "\<forall>d. 0 \<le> d \<and> d < i \<longrightarrow> m \<le> t d" "\<forall>d. 0 \<le> d \<and> d < c \<longrightarrow> m < t d"
        unfolding s fst_conv snd_conv by blast+
      have nall: "\<not> (\<forall>d. 0 \<le> d \<and> d < i + 1 \<longrightarrow> 1000000000 \<le> t d)"
        using False by auto
      show ?thesis
      proof (cases "t i < m")
        case lt: True
        have "\<forall>d. 0 \<le> d \<and> d < i + 1 \<longrightarrow> t i \<le> t d"
          using old(5) lt unfolding split by auto
        moreover have "\<forall>d. 0 \<le> d \<and> d < i \<longrightarrow> t i < t d"
          using old(5) lt by auto
        moreover have "t i < 1000000000" using lt old(4) by simp
        ultimately show ?thesis using lt i nall by (simp add: I_def s body)
      next
        case ge: False
        have "\<forall>d. 0 \<le> d \<and> d < i + 1 \<longrightarrow> m \<le> t d"
          using old(5) ge unfolding split by auto
        then show ?thesis using ge old nall by (simp add: I_def s body)
      qed
    qed
  qed
  moreover have "b = snd (for_lt 0 MAX_DISP body (1000000000, 0))"
    by (simp add: b_def select_disparity_def body_def)
  ultimately show ?thesis by (auto simp: I_def split: if_splits)
qed

lemma select_disparity_range:
  "0 \<le> select_disparity plr prl ptb pbt y x \<and> select_disparity plr prl ptb pbt y x < MAX_DISP"
  using select_disparity_scan [of plr prl ptb pbt y x]
  by (auto simp: MAX_DISP_def split: if_splits)

lemma select_disparity_default:
  assumes "\<And>d. 0 \<le> d \<Longrightarrow> d < MAX_DISP \<Longrightarrow> 1000000000 \<le> total_cost plr prl ptb pbt y x d"
  shows "select_disparity plr prl ptb pbt y x = 0"
  using select_disparity_scan [of plr prl ptb pbt y x] assms by (auto split: if_splits)

lemma select_disparity_least:
  assumes "0 \<le> e" "e < MAX_DISP" "total_cost plr prl ptb pbt y x e < 1000000000"
  shows "select_disparity plr prl ptb pbt y x = spec_bestDisparity (total_cost plr prl ptb pbt y x)"
proof -
  define t where "t = total_cost plr prl ptb pbt y x"
  define b where "b = select_disparity plr prl ptb pbt y x"
  have "\<not> (\<forall>d. 0 \<le> d \<and> d < MAX_DISP \<longrightarrow> 1000000000 \<le> t d)"
    using assms unfolding t_def by force
  then have b: "0 \<le> b" "b < MAX_DISP" "\<And>d. 0 \<le> d \<Longrightarrow> d < MAX_DISP \<Longrightarrow> t b \<le> t d"
    "\<And>d. 0 \<le> d \<Longrightarrow> d < b \<Longrightarrow> t b < t d"
    using select_disparity_scan [of plr prl ptb pbt y x] unfolding t_def b_def
    by (auto split: if_splits)
  have m: "Min (t ` {0..<MAX_DISP}) = t b"
    using b by (intro Min_eqI) auto
  have "Min {d \<in> {0..<MAX_DISP}. t d = t b} = b"
  proof (rule Min_eqI)
    show "finite {d \<in> {0..<MAX_DISP}. t d = t b}"
      by (rule finite_subset [of _ "{0..<MAX_DISP}"]) auto
    show "b \<in> {d \<in> {0..<MAX_DISP}. t d = t b}" using b by simp
  next
    fix d assume "d \<in> {d \<in> {0..<MAX_DISP}. t d = t b}"
    then have d: "0 \<le> d" "t d = t b" by auto
    show "b \<le> d"
    proof (rule ccontr)
      assume "\<not> b \<le> d"
      then have "t b < t d" using b(4) [of d] d(1) by simp
      then show False using d(2) by simp
    qed
  qed
  then show ?thesis unfolding spec_bestDisparity_def m t_def [symmetric] b_def by simp
qed

lemma select_disparity_le_first:
  assumes "total_cost plr prl ptb pbt y x 0 < 1000000000"
  shows "total_cost plr prl ptb pbt y x (select_disparity plr prl ptb pbt y x)
         \<le> total_cost plr prl ptb pbt y x 0"
proof -
  have "\<not> (\<forall>d. 0 \<le> d \<and> d < MAX_DISP \<longrightarrow> 1000000000 \<le> total_cost plr prl ptb pbt y x d)"
    using assms by (auto simp: MAX_DISP_def intro!: exI [of _ 0])
  then show ?thesis
    using select_disparity_scan [of plr prl ptb pbt y x]
    by (auto simp: MAX_DISP_def split: if_splits)
qed

lemma row_major_div_mod:
  fixes y x :: int
  assumes "0 \<le> x" "x < WIDTH"
  shows "(y * WIDTH + x) div WIDTH = y" "(y * WIDTH + x) mod WIDTH = x"
  using assms by (simp_all add: WIDTH_def)

lemma winner_take_all_cells:
  "winner_take_all plr prl ptb pbt out0 =
     (\<lambda>i. if 0 \<le> i \<and> i < HEIGHT * WIDTH
          then select_disparity plr prl ptb pbt (i div WIDTH) (i mod WIDTH)
          else out0 i)"
proof -
  define sel where "sel i = select_disparity plr prl ptb pbt (i div WIDTH) (i mod WIDTH)" for i
  define J where "J t out = (out = (\<lambda>i. if 0 \<le> i \<and> i < t then sel i else out0 i))"
    for t :: int and out :: disparities
  have row: "J ((y + 1) * WIDTH)
      (for_lt 0 WIDTH (\<lambda>x out. out(y * WIDTH + x := select_disparity plr prl ptb pbt y x)) out)"
    if y: "0 \<le> y" and inv: "J (y * WIDTH) out" for y out
  proof -
    have "J (y * WIDTH + WIDTH)
      (for_lt 0 WIDTH (\<lambda>x out. out(y * WIDTH + x := select_disparity plr prl ptb pbt y x)) out)"
    proof (rule for_lt_rule [where I = "\<lambda>j. J (y * WIDTH + j)"])
      show "J (y * WIDTH + 0) out" using inv by simp
      show "0 \<le> WIDTH" by (simp add: WIDTH_def)
    next
      fix j s assume j: "0 \<le> j" "j < WIDTH" and s: "J (y * WIDTH + j) s"
      have "select_disparity plr prl ptb pbt y j = sel (y * WIDTH + j)"
        unfolding sel_def using row_major_div_mod [OF j, of y] by simp
      moreover have "0 \<le> y * WIDTH + j" using y j by (simp add: WIDTH_def)
      ultimately show "J (y * WIDTH + (j + 1)) (s(y * WIDTH + j := select_disparity plr prl ptb pbt y j))"
        using s unfolding J_def by (auto simp: fun_eq_iff)
    qed
    then show ?thesis by (simp add: algebra_simps)
  qed
  have "J (HEIGHT * WIDTH) (winner_take_all plr prl ptb pbt out0)"
    unfolding winner_take_all_def
  proof (rule for_lt_rule [where I = "\<lambda>y. J (y * WIDTH)"])
    show "J (0 * WIDTH) out0" by (auto simp: J_def fun_eq_iff)
    show "0 \<le> HEIGHT" by (simp add: HEIGHT_def)
  next
    fix y s assume "0 \<le> y" "y < HEIGHT" "J (y * WIDTH) s"
    then show "J ((y + 1) * WIDTH)
      (for_lt 0 WIDTH (\<lambda>x out. out(y * WIDTH + x := select_disparity plr prl ptb pbt y x)) s)"
      by (intro row)
  qed
  then show ?thesis unfolding J_def sel_def .
qed

lemma winner_take_all_pixel:
  assumes "in_grid y x"
  shows "winner_take_all plr prl ptb pbt out0 (y * WIDTH + x) = select_disparity plr prl ptb pbt y x"
proof -
  have x: "0 \<le> x" "x < WIDTH" using assms by (auto simp: in_grid_def)
  have "0 \<le> y * WIDTH + x" "y * WIDTH + x < HEIGHT * WIDTH"
    using assms by (auto simp: in_grid_def HEIGHT_def WIDTH_def)
  then show ?thesis
    unfolding winner_take_all_cells using row_major_div_mod [OF x, of y] by simp
qed

section \<open>The top level\<close>

lemma sgm_hls_returns:
  "sgm_hls mem l r out0 =
     Some (\<lparr>cost_volume = compute_sad_cost_hls l r (cost_volume mem),
            path_left_to_right =
              aggregate_scan (compute_sad_cost_hls l r (cost_volume mem)) (path_left_to_right mem) 0 1,
            path_right_to_left =
              aggregate_scan (compute_sad_cost_hls l r (cost_volume mem)) (path_right_to_left mem) 0 (- 1),
            path_top_to_bottom =
              aggregate_scan (compute_sad_cost_hls l r (cost_volume mem)) (path_top_to_bottom mem) 1 0,
            path_bottom_to_top =
              aggregate_scan (compute_sad_cost_hls l r (cost_volume mem)) (path_bottom_to_top mem) (- 1) 0\<rparr>,
           winner_take_all
             (aggregate_scan (compute_sad_cost_hls l r (cost_volume mem)) (path_left_to_right mem) 0 1)
             (aggregate_scan (compute_sad_cost_hls l r (cost_volume mem)) (path_right_to_left mem) 0 (- 1))
             (aggregate_scan (compute_sad_cost_hls l r (cost_volume mem)) (path_top_to_bottom mem) 1 0)
             (aggregate_scan (compute_sad_cost_hls l r (cost_volume mem)) (path_bottom_to_top mem) (- 1) 0)
             out0)"
  by (simp add: sgm_hls_def Let_def aggregate_path_returns)

section \<open>Costs and totals\<close>

lemma for_lt_cong:
  assumes "\<And>i s. i0 \<le> i \<Longrightarrow> i < n \<Longrightarrow> body i s = body' i s"
  shows "for_lt i0 n body s = for_lt i0 n body' s"
  using assms
proof (induction i0 n body s rule: for_lt.induct)
  case (1 i n body s)
  show ?case
  proof (cases "i < n")
    case True
    have "for_lt (i + 1) n body (body i s) = for_lt (i + 1) n body' (body i s)"
      using True "1.prems" by (intro "1.IH") auto
    moreover have "body i s = body' i s" using True "1.prems" by simp
    ultimately show ?thesis
      using True by (simp add: for_lt.simps [of i n body] for_lt.simps [of i n body'])
  next
    case False
    then show ?thesis by (simp add: for_lt.simps [of i n body] for_lt.simps [of i n body'])
  qed
qed

lemma select_disparity_cong:
  assumes "\<And>d. 0 \<le> d \<Longrightarrow> d < MAX_DISP \<Longrightarrow>
             plr y x d = plr' y x d \<and> prl y x d = prl' y x d \<and>
             ptb y x d = ptb' y x d \<and> pbt y x d = pbt' y x d"
  shows "select_disparity plr prl ptb pbt y x = select_disparity plr' prl' ptb' pbt' y x"
  unfolding select_disparity_def
  by (rule arg_cong [where f = snd], rule for_lt_cong) (use assms in \<open>auto simp: Let_def\<close>)

text \<open>The cost volume of the top level has no negative cell, and no cell above 1000 on
  intensities within 0..255.\<close>

lemma pixel_index_range:
  assumes "in_grid y x" "0 \<le> d" "x - d \<ge> 0"
  shows "0 \<le> y * WIDTH + (x - d)" "y * WIDTH + (x - d) < HEIGHT * WIDTH"
proof -
  have "0 \<le> y" "y \<le> 239" "x - d \<le> 271" using assms by (auto simp: in_grid_def HEIGHT_def WIDTH_def)
  then show "0 \<le> y * WIDTH + (x - d)" "y * WIDTH + (x - d) < HEIGHT * WIDTH"
    using assms(3) by (simp_all add: HEIGHT_def WIDTH_def)
qed

lemma cost_nonneg:
  assumes "in_grid y x" "0 \<le> d" "d < MAX_DISP"
  shows "0 \<le> compute_sad_cost_hls l r cv y x d"
  using assms by (simp add: compute_sad_cost_cells in_grid_def)

lemma cost_le_255:
  assumes g: "in_grid y x" and d: "0 \<le> d" "d < MAX_DISP" and xd: "x - d \<ge> 0"
    and l: "\<And>i. 0 \<le> i \<Longrightarrow> i < HEIGHT * WIDTH \<Longrightarrow> 0 \<le> l i \<and> l i \<le> 255"
    and r: "\<And>i. 0 \<le> i \<Longrightarrow> i < HEIGHT * WIDTH \<Longrightarrow> 0 \<le> r i \<and> r i \<le> 255"
  shows "compute_sad_cost_hls l r cv y x d \<le> 255"
proof -
  have "0 \<le> l (y * WIDTH + x) \<and> l (y * WIDTH + x) \<le> 255"
    using pixel_index_range [OF g, of 0] g by (intro l) (auto simp: in_grid_def)
  moreover have "0 \<le> r (y * WIDTH + (x - d)) \<and> r (y * WIDTH + (x - d)) \<le> 255"
    using pixel_index_range [OF g d(1) xd] by (intro r)
  ultimately have "\<bar>l (y * WIDTH + x) - r (y * WIDTH + (x - d))\<bar> \<le> 255"
    by linarith
  then show ?thesis using g d xd by (simp add: compute_sad_cost_cells in_grid_def)
qed

lemma cost_le_1000:
  assumes g: "in_grid y x" and d: "0 \<le> d" "d < MAX_DISP"
    and l: "\<And>i. 0 \<le> i \<Longrightarrow> i < HEIGHT * WIDTH \<Longrightarrow> 0 \<le> l i \<and> l i \<le> 255"
    and r: "\<And>i. 0 \<le> i \<Longrightarrow> i < HEIGHT * WIDTH \<Longrightarrow> 0 \<le> r i \<and> r i \<le> 255"
  shows "compute_sad_cost_hls l r cv y x d \<le> 1000"
proof (cases "x - d \<ge> 0")
  case True
  have "compute_sad_cost_hls l r cv y x d \<le> 255"
    by (rule cost_le_255 [OF g d True]) (use l r in auto)
  then show ?thesis by simp
next
  case False
  then show ?thesis using g d by (simp add: compute_sad_cost_cells in_grid_def)
qed

text \<open>Bounds on the total of the four paths at one pixel.\<close>

lemma total_le:
  assumes g: "in_grid y x" and d: "0 \<le> d" "d < MAX_DISP"
  shows "total_cost (aggregate_scan c p1 0 1) (aggregate_scan c p2 0 (- 1))
           (aggregate_scan c p3 1 0) (aggregate_scan c p4 (- 1) 0) y x d
         \<le> 4 * c y x d + 512"
proof -
  have "aggregate_scan c p1 0 1 y x d \<le> c y x d + P2_PENALTY"
       "aggregate_scan c p2 0 (- 1) y x d \<le> c y x d + P2_PENALTY"
       "aggregate_scan c p3 1 0 y x d \<le> c y x d + P2_PENALTY"
       "aggregate_scan c p4 (- 1) 0 y x d \<le> c y x d + P2_PENALTY"
    by (rule aggregate_scan_le [OF _ g d], simp)+
  then show ?thesis by (simp add: total_cost_def P2_PENALTY_def)
qed

lemma total_ge:
  assumes g: "in_grid y x" and d: "0 \<le> d" "d < MAX_DISP"
    and l1: "in_grid y (x - 1) \<Longrightarrow> \<exists>e. 0 \<le> e \<and> e < MAX_DISP \<and> c y (x - 1) e \<le> 1872"
    and l2: "in_grid y (x + 1) \<Longrightarrow> \<exists>e. 0 \<le> e \<and> e < MAX_DISP \<and> c y (x + 1) e \<le> 1872"
    and l3: "in_grid (y - 1) x \<Longrightarrow> \<exists>e. 0 \<le> e \<and> e < MAX_DISP \<and> c (y - 1) x e \<le> 1872"
    and l4: "in_grid (y + 1) x \<Longrightarrow> \<exists>e. 0 \<le> e \<and> e < MAX_DISP \<and> c (y + 1) x e \<le> 1872"
  shows "4 * c y x d
         \<le> total_cost (aggregate_scan c p1 0 1) (aggregate_scan c p2 0 (- 1))
             (aggregate_scan c p3 1 0) (aggregate_scan c p4 (- 1) 0) y x d"
proof -
  have "c y x d \<le> aggregate_scan c p1 0 1 y x d"
    by (rule aggregate_scan_ge [OF _ g d]) (use l1 in simp_all)
  moreover have "c y x d \<le> aggregate_scan c p2 0 (- 1) y x d"
    by (rule aggregate_scan_ge [OF _ g d]) (use l2 in simp_all)
  moreover have "c y x d \<le> aggregate_scan c p3 1 0 y x d"
    by (rule aggregate_scan_ge [OF _ g d]) (use l3 in simp_all)
  moreover have "c y x d \<le> aggregate_scan c p4 (- 1) 0 y x d"
    by (rule aggregate_scan_ge [OF _ g d]) (use l4 in simp_all)
  ultimately show ?thesis by (simp add: total_cost_def)
qed

section \<open>Integer values\<close>

lemma grayscale_cell:
  assumes "grayscale img" "0 \<le> i" "i < HEIGHT * WIDTH"
  shows "img i \<in> \<int>" "0 \<le> img i" "img i \<le> 255"
  using assms unfolding grayscale_def by blast+

lemma grayscale_cost_cells:
  assumes l: "grayscale l" and r: "grayscale r"
  shows "cost_cells_within 1000 (compute_sad_cost_hls l r cv)"
  unfolding cost_cells_within_def
proof (intro allI impI)
  fix y x d assume a: "in_grid y x \<and> 0 \<le> d \<and> d < MAX_DISP"
  then have g: "in_grid y x" and d: "0 \<le> d" "d < MAX_DISP" by simp_all
  show "compute_sad_cost_hls l r cv y x d \<in> \<int> \<and> 0 \<le> compute_sad_cost_hls l r cv y x d \<and>
        compute_sad_cost_hls l r cv y x d \<le> 1000"
  proof (cases "x - d \<ge> 0")
    case True
    have x0: "0 \<le> x" using g by (simp add: in_grid_def)
    have li: "0 \<le> y * WIDTH + x" "y * WIDTH + x < HEIGHT * WIDTH"
      using pixel_index_range [OF g, of 0] x0 by simp_all
    have ri: "0 \<le> y * WIDTH + (x - d)" "y * WIDTH + (x - d) < HEIGHT * WIDTH"
      using pixel_index_range [OF g d(1) True] by simp_all
    have "\<bar>l (y * WIDTH + x) - r (y * WIDTH + (x - d))\<bar> \<in> \<int>"
      using grayscale_cell(1) [OF l li] grayscale_cell(1) [OF r ri] by simp
    moreover have "\<bar>l (y * WIDTH + x) - r (y * WIDTH + (x - d))\<bar> \<le> 255"
      using grayscale_cell(2,3) [OF l li] grayscale_cell(2,3) [OF r ri] by linarith
    ultimately show ?thesis
      using g d True by (simp add: compute_sad_cost_cells in_grid_def)
  next
    case False
    then show ?thesis using g d by (simp add: compute_sad_cost_cells in_grid_def)
  qed
qed

lemma cost_cells_within_mono:
  assumes "cost_cells_within b c" "b \<le> b'"
  shows "cost_cells_within b' c"
  using assms unfolding cost_cells_within_def by force

lemma cost_cells_withinD:
  assumes "cost_cells_within b c" "in_grid y x" "0 \<le> d" "d < MAX_DISP"
  shows "c y x d \<in> \<int>" "0 \<le> c y x d" "c y x d \<le> b"
  using assms unfolding cost_cells_within_def by blast+

lemma min_Ints:
  fixes a b :: real
  assumes "a \<in> \<int>" "b \<in> \<int>"
  shows "min a b \<in> \<int>"
  using assms by (simp add: min_def)

lemma aggregate_scan_Ints:
  assumes dir: "dir_y \<noteq> 0 \<or> dir_x \<noteq> 0" and g: "in_grid y x"
    and c: "cost_cells_within b c"
  shows "\<forall>d. 0 \<le> d \<and> d < MAX_DISP \<longrightarrow> aggregate_scan c pv dir_y dir_x y x d \<in> \<int>"
  using dir g
proof (induction rule: grid_induct)
  case (pixel y x)
  show ?case
  proof (intro allI impI)
    fix d assume "0 \<le> d \<and> d < MAX_DISP"
    then have d: "0 \<le> d" "d < MAX_DISP" by simp_all
    have ci: "c y x d \<in> \<int>" by (rule cost_cells_withinD(1) [OF c pixel(1) d])
    show "aggregate_scan c pv dir_y dir_x y x d \<in> \<int>"
    proof (cases "in_grid (y - dir_y) (x - dir_x)")
      case False
      show ?thesis unfolding aggregate_scan_boundary [OF dir pixel(1) False d] by (rule ci)
    next
      case True
      define prev where "prev = aggregate_scan c pv dir_y dir_x (y - dir_y) (x - dir_x)"
      have p: "prev e \<in> \<int>" if "0 \<le> e" "e < MAX_DISP" for e
        using pixel(2) [OF True] that unfolding prev_def by simp
      have mp: "min_prev_aggregated prev \<in> \<int>"
        using min_prev_attained [of prev] p by auto
      have same: "prev d \<in> \<int>" using p d by simp
      have down: "(if d > 0 then prev (d - 1) + P1_PENALTY else 2000) \<in> \<int>"
        using p [of "d - 1"] d by (simp add: P1_PENALTY_def)
      have up: "(if d < MAX_DISP - 1 then prev (d + 1) + P1_PENALTY else 2000) \<in> \<int>"
        using p [of "d + 1"] d by (simp add: P1_PENALTY_def)
      have jump: "min_prev_aggregated prev + P2_PENALTY \<in> \<int>"
        using mp by (simp add: P2_PENALTY_def)
      have "min_transition_cost prev (min_prev_aggregated prev) d \<in> \<int>"
        unfolding min_transition_cost_min
        by (intro min_Ints same down up jump)
      then show ?thesis
        unfolding aggregate_scan_recurrence [OF dir pixel(1) True d] prev_def [symmetric]
        using ci mp by (intro Ints_add Ints_diff)
    qed
  qed
qed

lemma aggregate_scan_le_2000:
  assumes dir: "dir_y \<noteq> 0 \<or> dir_x \<noteq> 0" and g: "in_grid y x"
    and d: "0 \<le> d" "d < MAX_DISP"
    and c: "cost_cells_within (2000 - P2_PENALTY) c"
  shows "aggregate_scan c pv dir_y dir_x y x d \<le> 2000"
  using aggregate_scan_le [OF dir g d, of c pv] cost_cells_withinD(3) [OF c g d] by simp

text \<open>
  The smallest aggregated cost of a pixel is at most its largest raw cost: at the disparity
  where the previous pixel is smallest, the transition costs nothing.
\<close>

lemma min_prev_le_cost_bound:
  assumes dir: "dir_y \<noteq> 0 \<or> dir_x \<noteq> 0" and g: "in_grid y x"
    and c: "\<And>e. 0 \<le> e \<Longrightarrow> e < MAX_DISP \<Longrightarrow> c y x e \<le> b"
  shows "min_prev_aggregated (aggregate_scan c pv dir_y dir_x y x) \<le> b"
proof (cases "in_grid (y - dir_y) (x - dir_x)")
  case False
  have d0: "(0::int) \<le> 0" "0 < MAX_DISP" by (simp_all add: MAX_DISP_def)
  have "min_prev_aggregated (aggregate_scan c pv dir_y dir_x y x)
        \<le> aggregate_scan c pv dir_y dir_x y x 0"
    by (rule min_prev_le [OF d0])
  also have "\<dots> = c y x 0" by (rule aggregate_scan_boundary [OF dir g False d0])
  also have "\<dots> \<le> b" by (rule c [OF d0])
  finally show ?thesis .
next
  case True
  define prev where "prev = aggregate_scan c pv dir_y dir_x (y - dir_y) (x - dir_x)"
  obtain e where e: "0 \<le> e" "e < MAX_DISP" "min_prev_aggregated prev = prev e"
    using min_prev_attained [of prev] by blast
  have "min_transition_cost prev (min_prev_aggregated prev) e \<le> min_prev_aggregated prev"
    using min_transition_le_same [of prev "min_prev_aggregated prev" e] e(3) by simp
  then have "aggregate_scan c pv dir_y dir_x y x e \<le> c y x e"
    unfolding aggregate_scan_recurrence [OF dir g True e(1,2)] prev_def [symmetric] by simp
  moreover have "min_prev_aggregated (aggregate_scan c pv dir_y dir_x y x)
        \<le> aggregate_scan c pv dir_y dir_x y x e"
    by (rule min_prev_le [OF e(1,2)])
  ultimately show ?thesis using c [OF e(1,2)] by simp
qed

lemma aggregate_scan_ge_2000:
  assumes dir: "dir_y \<noteq> 0 \<or> dir_x \<noteq> 0" and g: "in_grid y x"
    and d: "0 \<le> d" "d < MAX_DISP"
    and c: "cost_cells_within 2000 c"
  shows "c y x d \<le> aggregate_scan c pv dir_y dir_x y x d"
proof (cases "in_grid (y - dir_y) (x - dir_x)")
  case False
  show ?thesis unfolding aggregate_scan_boundary [OF dir g False d] by simp
next
  case True
  define prev where "prev = aggregate_scan c pv dir_y dir_x (y - dir_y) (x - dir_x)"
  have "min_prev_aggregated prev \<le> 2000"
    unfolding prev_def
    by (rule min_prev_le_cost_bound [OF dir True]) (rule cost_cells_withinD(3) [OF c True])
  then have "min_prev_aggregated prev \<le> min_transition_cost prev (min_prev_aggregated prev) d"
    using d by (intro min_transition_ge)
  then show ?thesis
    unfolding aggregate_scan_recurrence [OF dir g True d] prev_def by simp
qed

section \<open>Selection outside the grayscale range\<close>

text \<open>
  The start value \<^verbatim>\<open>min_total_cost = 1e9\<close> is above every total of a grayscale image
  pair. It is not above every total of other images: on the spike images every total at
  pixel \<open>(1, 20)\<close> is at least \<open>8 \<cdot> 10\<^sup>9\<close>, so the stored disparity stays 0 although the
  total at disparity 1 is below the total at disparity 0.
\<close>

lemma start_value_hides_minimum_on_spike_images:
  "disparity_at (sgm_hls blank_mem spike_left spike_right no_disparities) (1 * WIDTH + 20) = Some 0 \<and>
   total_below (sgm_hls blank_mem spike_left spike_right no_disparities) 1 20 1 0"
proof -
  define c where "c = compute_sad_cost_hls spike_left spike_right zero_volume"
  define t where "t = total_cost (aggregate_scan c zero_volume 0 1)
      (aggregate_scan c zero_volume 0 (- 1)) (aggregate_scan c zero_volume 1 0)
      (aggregate_scan c zero_volume (- 1) 0) 1 20"
  have g: "in_grid 1 20" by (simp add: in_grid_def HEIGHT_def WIDTH_def)
  have here: "c 1 20 d = (if d = 1 then 2000000000 else 3000000000)"
    if "0 \<le> d" "d < MAX_DISP" for d
    using that
    by (simp add: c_def compute_sad_cost_cells spike_left_def spike_right_def
        HEIGHT_def WIDTH_def MAX_DISP_def)
  have n1: "\<exists>e. 0 \<le> e \<and> e < MAX_DISP \<and> c 1 (20 - 1) e \<le> 1872"
    by (rule exI [of _ 1])
       (simp add: c_def compute_sad_cost_cells spike_left_def spike_right_def
        HEIGHT_def WIDTH_def MAX_DISP_def)
  have n2: "\<exists>e. 0 \<le> e \<and> e < MAX_DISP \<and> c 1 (20 + 1) e \<le> 1872"
    by (rule exI [of _ 0])
       (simp add: c_def compute_sad_cost_cells spike_left_def spike_right_def
        HEIGHT_def WIDTH_def MAX_DISP_def)
  have n3: "\<exists>e. 0 \<le> e \<and> e < MAX_DISP \<and> c (1 - 1) 20 e \<le> 1872"
    by (rule exI [of _ 0])
       (simp add: c_def compute_sad_cost_cells spike_left_def spike_right_def
        HEIGHT_def WIDTH_def MAX_DISP_def)
  have n4: "\<exists>e. 0 \<le> e \<and> e < MAX_DISP \<and> c (1 + 1) 20 e \<le> 1872"
    by (rule exI [of _ 0])
       (simp add: c_def compute_sad_cost_cells spike_left_def spike_right_def
        HEIGHT_def WIDTH_def MAX_DISP_def)
  have ge: "4 * c 1 20 d \<le> t d" if "0 \<le> d" "d < MAX_DISP" for d
    unfolding t_def by (rule total_ge [OF g that n1 n2 n3 n4])
  have le: "t d \<le> 4 * c 1 20 d + 512" if "0 \<le> d" "d < MAX_DISP" for d
    unfolding t_def by (rule total_le [OF g that])
  have big: "1000000000 \<le> t d" if "0 \<le> d" "d < MAX_DISP" for d
    using ge [OF that] here [OF that] by (simp split: if_splits)
  have sel: "select_disparity (aggregate_scan c zero_volume 0 1)
      (aggregate_scan c zero_volume 0 (- 1)) (aggregate_scan c zero_volume 1 0)
      (aggregate_scan c zero_volume (- 1) 0) 1 20 = 0"
    by (rule select_disparity_default) (use big in \<open>simp add: t_def\<close>)
  have "t 1 \<le> 8000000512" using le [of 1] here [of 1] by (simp add: MAX_DISP_def)
  moreover have "12000000000 \<le> t 0" using ge [of 0] here [of 0] by (simp add: MAX_DISP_def)
  ultimately have lt: "t 1 < t 0" by simp
  have "disparity_at (sgm_hls blank_mem spike_left spike_right no_disparities) (1 * WIDTH + 20) = Some 0"
    using sel winner_take_all_pixel [OF g]
    by (simp add: disparity_at_def sgm_hls_returns blank_mem_def c_def)
  moreover have "total_below (sgm_hls blank_mem spike_left spike_right no_disparities) 1 20 1 0"
    using lt by (simp add: total_below_def sgm_hls_returns blank_mem_def c_def t_def)
  ultimately show ?thesis by simp
qed

section \<open>The claims\<close>

text \<open>
  Claim C1. For a direction vector other than \<open>(0, 0)\<close> and a cost volume whose cells are
  integers between 0 and \<open>2000 - P2\<close>, at a pixel of the grid whose previous pixel is in the
  grid, the aggregated cost that \<^verbatim>\<open>aggregate_path_hls\<close> returns is
  \<open>cost + transitionMin - minPrev\<close>, read on the returned volume: \<open>minPrev\<close> is the smallest
  aggregated cost of the previous pixel and \<open>transitionMin\<close> the smallest of the four
  candidates, where the candidate of a neighbour disparity that does not exist is any value
  \<open>large\<close> of at least 2000, the constant of the code among them. The cells being integers
  of that size, every sum and difference that the code forms is exact.
\<close>

theorem aggregated_cost_recurrence:
  assumes "dy \<noteq> 0 \<or> dx \<noteq> 0"
    and "cost_cells_within (2000 - P2_PENALTY) cost"
    and "in_grid row col" and "in_grid (row - dy) (col - dx)"
    and "0 \<le> d" and "d < MAX_DISP"
    and "2000 \<le> large"
  shows "\<exists>agg. aggregate_path_hls cost pv dy dx = Some agg \<and>
           agg row col d =
             cost row col d + spec_transitionMin large (agg (row - dy) (col - dx)) d
               - spec_minPrev (agg (row - dy) (col - dx))"
proof -
  define agg where "agg = aggregate_scan cost pv dy dx"
  have prev: "agg (row - dy) (col - dx) d \<le> 2000"
    unfolding agg_def by (rule aggregate_scan_le_2000 [OF assms(1,4,5,6,2)])
  have "agg row col d =
        cost row col d + (min_transition_cost (agg (row - dy) (col - dx))
                            (min_prev_aggregated (agg (row - dy) (col - dx))) d
                          - min_prev_aggregated (agg (row - dy) (col - dx)))"
    unfolding agg_def by (rule aggregate_scan_recurrence [OF assms(1,3,4,5,6)])
  moreover have "min_prev_aggregated p = spec_minPrev p" for p
    by (simp add: spec_minPrev_def min_prev_aggregated_Min)
  moreover have "min_transition_cost (agg (row - dy) (col - dx))
                   (min_prev_aggregated (agg (row - dy) (col - dx))) d =
                 spec_transitionMin large (agg (row - dy) (col - dx)) d"
    by (rule min_transition_spec) (rule assms(7), rule prev)
  ultimately have "agg row col d =
        cost row col d + spec_transitionMin large (agg (row - dy) (col - dx)) d
          - spec_minPrev (agg (row - dy) (col - dx))"
    by simp
  then show ?thesis by (simp add: aggregate_path_returns agg_def)
qed

theorem aggregated_cost_recurrence_witness:
  "(1::int) \<noteq> 0 \<and> cost_cells_within (2000 - P2_PENALTY) ramp_cost \<and>
   in_grid 0 1 \<and> in_grid (0 - 0) (1 - 1) \<and> (0::int) \<le> 0 \<and> 0 < MAX_DISP \<and> (2000::real) \<le> 2000 \<and>
   (\<exists>agg. aggregate_path_hls ramp_cost flat_cost 0 1 = Some agg \<and>
      agg 0 1 0 = ramp_cost 0 1 0 + spec_transitionMin 2000 (agg 0 0) 0 - spec_minPrev (agg 0 0))"
proof -
  have c: "cost_cells_within (2000 - P2_PENALTY) ramp_cost"
    unfolding cost_cells_within_def ramp_cost_def P2_PENALTY_def
  proof (intro allI impI conjI)
    fix y x d :: int
    have "0 \<le> (x + d) mod 256" "(x + d) mod 256 < 256" by simp_all
    then show "0 \<le> (of_int ((x + d) mod 256) :: real)"
      and "(of_int ((x + d) mod 256) :: real) \<le> 2000 - 128"
      by simp_all
    show "(of_int ((x + d) mod 256) :: real) \<in> \<int>" by simp
  qed
  have g: "in_grid 0 1" "in_grid (0 - 0) (1 - 1)" by (simp_all add: in_grid_def HEIGHT_def WIDTH_def)
  have d: "(0::int) \<le> 0" "0 < MAX_DISP" by (simp_all add: MAX_DISP_def)
  from aggregated_cost_recurrence [of 0 1 ramp_cost 0 1 0 2000 flat_cost, OF _ c g d]
  show ?thesis using c g d by simp
qed

text \<open>
  Claim C2. For every pair of grayscale images, at every pixel of the grid and every
  disparity \<open>d\<close> below \<open>MAX_DISP\<close>, the cost volume that \<^verbatim>\<open>compute_sad_cost_hls\<close> leaves
  holds \<open>\<bar>left[row][col] - right[row][col - d]\<bar>\<close> when \<open>col - d \<ge> 0\<close> and the constant 1000
  when \<open>col < d\<close>, whatever the volume held before. The images are flat arrays: pixel
  \<open>(row, col)\<close> is the cell \<open>row * WIDTH + col\<close>. The pixels being integers between 0
  and 255, the difference that the code forms is exact.
\<close>

theorem cost_volume_contract:
  assumes "grayscale left" and "grayscale right"
    and "in_grid row col" and "0 \<le> d" and "d < MAX_DISP"
  shows "compute_sad_cost_hls left right cv row col d =
         (if col - d \<ge> 0
          then \<bar>left (row * WIDTH + col) - right (row * WIDTH + (col - d))\<bar>
          else 1000)"
  using assms(3,4,5) by (simp add: compute_sad_cost_cells in_grid_def)

theorem cost_volume_contract_witness:
  "grayscale (gray 10) \<and> grayscale (gray 50) \<and> in_grid 0 1 \<and> (0::int) \<le> 1 \<and> 1 < MAX_DISP \<and>
   compute_sad_cost_hls (gray 10) (gray 50) flat_cost 0 1 1 = 40 \<and>
   compute_sad_cost_hls (gray 10) (gray 50) flat_cost 0 1 2 = 1000"
proof -
  have a: "grayscale (gray 10)" "grayscale (gray 50)" by (simp_all add: grayscale_def gray_def)
  have g: "in_grid 0 1" by (simp add: in_grid_def HEIGHT_def WIDTH_def)
  show ?thesis
    using cost_volume_contract [OF a g, of 1 flat_cost] cost_volume_contract [OF a g, of 2 flat_cost]
      a g
    by (simp add: MAX_DISP_def gray_def)
qed

text \<open>
  Claim C3. At a pixel of the grid whose previous pixel \<open>(row - dy, col - dx)\<close> lies
  outside the grid, \<^verbatim>\<open>aggregate_path_hls\<close> returns a volume whose cell at every disparity is
  the raw cost, for every direction vector and every earlier content of the path volume.
\<close>

theorem boundary_pixel_is_raw_cost:
  assumes "in_grid row col" and "\<not> in_grid (row - dy) (col - dx)"
    and "0 \<le> d" and "d < MAX_DISP"
  shows "\<exists>agg. aggregate_path_hls cost pv dy dx = Some agg \<and> agg row col d = cost row col d"
proof -
  have dir: "dy \<noteq> 0 \<or> dx \<noteq> 0" using assms(1,2) by auto
  have "aggregate_scan cost pv dy dx row col d = cost row col d"
    by (rule aggregate_scan_boundary [OF dir assms])
  then show ?thesis by (simp add: aggregate_path_returns)
qed

theorem boundary_pixel_is_raw_cost_witness:
  "in_grid 0 0 \<and> \<not> in_grid (0 - 0) (0 - 1) \<and> (0::int) \<le> 3 \<and> 3 < MAX_DISP \<and>
   (\<exists>agg. aggregate_path_hls flat_cost zero_volume 0 1 = Some agg \<and> agg 0 0 3 = 5000)"
  using boundary_pixel_is_raw_cost [of 0 0 0 1 3 flat_cost zero_volume]
  by (simp add: in_grid_def HEIGHT_def WIDTH_def MAX_DISP_def flat_cost_def)

text \<open>
  Claim C4. For every pair of grayscale images and every pixel, the selection stage sums the
  four volumes that the four calls of \<^verbatim>\<open>aggregate_path_hls\<close> returned, and stores the
  smallest disparity among those whose total is the minimum. On grayscale images every
  cost, aggregated cost and total is an integer below 4513, so the sums are exact and at
  least one total is below the start value \<^verbatim>\<open>1e9\<close> of the scan.
\<close>

theorem selected_disparity_first_minimum:
  assumes "grayscale left" and "grayscale right" and "in_grid row col"
  shows "\<exists>mem' out. sgm_hls mem left right out0 = Some (mem', out) \<and>
     aggregate_path_hls (cost_volume mem') (path_left_to_right mem) 0 1
       = Some (path_left_to_right mem') \<and>
     aggregate_path_hls (cost_volume mem') (path_right_to_left mem) 0 (- 1)
       = Some (path_right_to_left mem') \<and>
     aggregate_path_hls (cost_volume mem') (path_top_to_bottom mem) 1 0
       = Some (path_top_to_bottom mem') \<and>
     aggregate_path_hls (cost_volume mem') (path_bottom_to_top mem) (- 1) 0
       = Some (path_bottom_to_top mem') \<and>
     out (row * WIDTH + col) =
       spec_bestDisparity
         (total_cost (path_left_to_right mem') (path_right_to_left mem')
            (path_top_to_bottom mem') (path_bottom_to_top mem') row col)"
proof -
  define c where "c = compute_sad_cost_hls left right (cost_volume mem)"
  define plr prl ptb pbt where "plr = aggregate_scan c (path_left_to_right mem) 0 1"
    and "prl = aggregate_scan c (path_right_to_left mem) 0 (- 1)"
    and "ptb = aggregate_scan c (path_top_to_bottom mem) 1 0"
    and "pbt = aggregate_scan c (path_bottom_to_top mem) (- 1) 0"
  have d0: "(0::int) \<le> 0" "0 < MAX_DISP" by (simp_all add: MAX_DISP_def)
  have "cost_cells_within 1000 c"
    unfolding c_def by (rule grayscale_cost_cells [OF assms(1,2)])
  then have "c row col 0 \<le> 1000" by (rule cost_cells_withinD(3) [OF _ assms(3) d0])
  moreover have "total_cost plr prl ptb pbt row col 0 \<le> 4 * c row col 0 + 512"
    unfolding plr_def prl_def ptb_def pbt_def by (rule total_le [OF assms(3) d0])
  ultimately have "total_cost plr prl ptb pbt row col 0 < 1000000000" by simp
  then have "select_disparity plr prl ptb pbt row col =
             spec_bestDisparity (total_cost plr prl ptb pbt row col)"
    by (rule select_disparity_least [OF d0])
  then have w: "winner_take_all plr prl ptb pbt out0 (row * WIDTH + col) =
             spec_bestDisparity (total_cost plr prl ptb pbt row col)"
    by (simp only: winner_take_all_pixel [OF assms(3)])
  define mem' where "mem' = \<lparr>cost_volume = c, path_left_to_right = plr,
    path_right_to_left = prl, path_top_to_bottom = ptb, path_bottom_to_top = pbt\<rparr>"
  have f: "cost_volume mem' = c" "path_left_to_right mem' = plr" "path_right_to_left mem' = prl"
    "path_top_to_bottom mem' = ptb" "path_bottom_to_top mem' = pbt"
    by (simp_all add: mem'_def)
  have r: "sgm_hls mem left right out0 = Some (mem', winner_take_all plr prl ptb pbt out0)"
    unfolding sgm_hls_returns mem'_def c_def plr_def prl_def ptb_def pbt_def ..
  show ?thesis
  proof (intro exI conjI)
    show "sgm_hls mem left right out0 = Some (mem', winner_take_all plr prl ptb pbt out0)"
      by (rule r)
    show "aggregate_path_hls (cost_volume mem') (path_left_to_right mem) 0 1
            = Some (path_left_to_right mem')"
      unfolding f plr_def by (rule aggregate_path_returns)
    show "aggregate_path_hls (cost_volume mem') (path_right_to_left mem) 0 (- 1)
            = Some (path_right_to_left mem')"
      unfolding f prl_def by (rule aggregate_path_returns)
    show "aggregate_path_hls (cost_volume mem') (path_top_to_bottom mem) 1 0
            = Some (path_top_to_bottom mem')"
      unfolding f ptb_def by (rule aggregate_path_returns)
    show "aggregate_path_hls (cost_volume mem') (path_bottom_to_top mem) (- 1) 0
            = Some (path_bottom_to_top mem')"
      unfolding f pbt_def by (rule aggregate_path_returns)
    show "winner_take_all plr prl ptb pbt out0 (row * WIDTH + col) =
       spec_bestDisparity
         (total_cost (path_left_to_right mem') (path_right_to_left mem')
            (path_top_to_bottom mem') (path_bottom_to_top mem') row col)"
      unfolding f by (rule w)
  qed
qed

theorem selected_disparity_first_minimum_witness:
  "grayscale (gray 10) \<and> grayscale (gray 50) \<and> in_grid 3 20 \<and>
   (\<exists>mem' out. sgm_hls stale_mem (gray 10) (gray 50) stale_disparities = Some (mem', out) \<and>
     out (3 * WIDTH + 20) =
       spec_bestDisparity
         (total_cost (path_left_to_right mem') (path_right_to_left mem')
            (path_top_to_bottom mem') (path_bottom_to_top mem') 3 20))"
proof -
  have a: "grayscale (gray 10)" "grayscale (gray 50)" by (simp_all add: grayscale_def gray_def)
  have g: "in_grid 3 20" by (simp add: in_grid_def HEIGHT_def WIDTH_def)
  from selected_disparity_first_minimum [OF a g, of stale_mem stale_disparities]
  show ?thesis using a g by blast
qed

text \<open>
  Claim C5. If the two images agree at every pixel, then the raw cost at disparity 0 is zero
  at every pixel, and the disparity that \<^verbatim>\<open>sgm_hls\<close> stores is 0 at every pixel (with the
  penalties of the header, 8 and 128).
\<close>

theorem identical_images_zero_disparity:
  assumes same: "\<forall>i. 0 \<le> i \<and> i < HEIGHT * WIDTH \<longrightarrow> left i = right i"
    and g: "in_grid row col"
  shows "\<exists>mem' out. sgm_hls mem left right out0 = Some (mem', out) \<and>
           cost_volume mem' row col 0 = 0 \<and> out (row * WIDTH + col) = 0"
proof -
  define c where "c = compute_sad_cost_hls left right (cost_volume mem)"
  define plr prl ptb pbt where "plr = aggregate_scan c (path_left_to_right mem) 0 1"
    and "prl = aggregate_scan c (path_right_to_left mem) 0 (- 1)"
    and "ptb = aggregate_scan c (path_top_to_bottom mem) 1 0"
    and "pbt = aggregate_scan c (path_bottom_to_top mem) (- 1) 0"
  define t where "t = total_cost plr prl ptb pbt row col"
  have d0: "(0::int) \<le> 0" "0 < MAX_DISP" by (simp_all add: MAX_DISP_def)
  have nonneg: "0 \<le> c y x d" if "in_grid y x" "0 \<le> d" "d < MAX_DISP" for y x d
    unfolding c_def by (rule cost_nonneg [OF that])
  have zero: "c y x 0 = 0" if "in_grid y x" for y x
  proof -
    have "0 \<le> x" using that by (simp add: in_grid_def)
    then have "0 \<le> y * WIDTH + x \<and> y * WIDTH + x < HEIGHT * WIDTH"
      using pixel_index_range [OF that, of 0] by simp
    then have "left (y * WIDTH + x) = right (y * WIDTH + x)"
      using same by blast
    then show ?thesis using that by (simp add: c_def compute_sad_cost_cells in_grid_def MAX_DISP_def)
  qed
  have path: "aggregate_scan c pv dy dx row col 0 = 0 \<and>
              (\<forall>d. 0 \<le> d \<and> d < MAX_DISP \<longrightarrow> 0 \<le> aggregate_scan c pv dy dx row col d)"
    if "dy \<noteq> 0 \<or> dx \<noteq> 0" for pv dy dx
    by (rule aggregate_scan_zero [OF that g]) (rule nonneg, assumption+, rule zero)
  have t0: "t 0 = 0"
    using path [of 0 1] path [of 0 "- 1"] path [of 1 0] path [of "- 1" 0]
    by (simp add: t_def total_cost_def plr_def prl_def ptb_def pbt_def)
  have tn: "0 \<le> t d" if "0 \<le> d" "d < MAX_DISP" for d
    using path [of 0 1] path [of 0 "- 1"] path [of 1 0] path [of "- 1" 0] that
    by (simp add: t_def total_cost_def plr_def prl_def ptb_def pbt_def)
  define b where "b = select_disparity plr prl ptb pbt row col"
  have "\<not> (\<forall>d. 0 \<le> d \<and> d < MAX_DISP \<longrightarrow> 1000000000 \<le> t d)"
    using t0 d0 by (auto intro!: exI [of _ 0])
  then have b: "0 \<le> b" "b < MAX_DISP" "\<And>d. 0 \<le> d \<Longrightarrow> d < b \<Longrightarrow> t b < t d"
    using select_disparity_scan [of plr prl ptb pbt row col] unfolding t_def b_def
    by (auto split: if_splits)
  have "b = 0"
  proof (rule ccontr)
    assume "b \<noteq> 0"
    then have "t b < t 0" using b(1) by (intro b(3)) auto
    then show False using tn [OF b(1,2)] t0 by simp
  qed
  then have "winner_take_all plr prl ptb pbt out0 (row * WIDTH + col) = 0"
    by (simp add: winner_take_all_pixel [OF g] b_def)
  then show ?thesis
    using zero [OF g]
    by (simp add: sgm_hls_returns c_def plr_def prl_def ptb_def pbt_def)
qed

theorem identical_images_zero_disparity_witness:
  "in_grid 3 7 \<and>
   (\<exists>mem' out. sgm_hls stale_mem (gray 10) (gray 10) stale_disparities = Some (mem', out) \<and>
      cost_volume mem' 3 7 0 = 0 \<and> out (3 * WIDTH + 7) = 0)"
  using identical_images_zero_disparity [of "gray 10" "gray 10" 3 7 stale_mem stale_disparities]
  by (simp add: in_grid_def HEIGHT_def WIDTH_def)

text \<open>
  Claim C6, as stated, fails: the code has no check and no error. Called with the diagonal
  direction \<open>(1, 1)\<close>, which is not cardinal, \<^verbatim>\<open>aggregate_path_hls\<close> returns, and the cell of
  pixel \<open>(0, 0)\<close> at disparity 0, which held 0, holds the raw cost 5000.
\<close>

theorem non_cardinal_direction_accepted_counterexample:
  "in_reach 1 1 \<and> \<not> cardinal 1 1 \<and> zero_volume 0 0 0 = 0 \<and>
   aggregated_cell (aggregate_path_hls flat_cost zero_volume 1 1) 0 0 0 = Some 5000"
proof -
  have dir: "(1::int) \<noteq> 0 \<or> (1::int) \<noteq> 0" by simp
  have "aggregate_scan flat_cost zero_volume 1 1 0 0 0 = flat_cost 0 0 0"
    by (rule aggregate_scan_boundary [OF dir])
       (simp_all add: in_grid_def HEIGHT_def WIDTH_def MAX_DISP_def)
  then show ?thesis
    by (simp add: aggregated_cell_def aggregate_path_returns flat_cost_def zero_volume_def
        cardinal_def in_reach_def HEIGHT_def WIDTH_def)
qed

text \<open>
  Claim C6, amended. \<^verbatim>\<open>aggregate_path_hls\<close> does not reject a direction that is not
  cardinal: for every direction vector no longer than the grid it returns a volume, and
  unless the direction is \<open>(0, 0)\<close> every cell of the grid is overwritten, the same whatever
  the path volume held. \<^verbatim>\<open>sgm_hls\<close> returns for every pair of images and every earlier
  content of its buffers: the cost volume it leaves is the one of
  \<^verbatim>\<open>compute_sad_cost_hls\<close>, the four path volumes are what \<^verbatim>\<open>aggregate_path_hls\<close> returns
  on it for the cardinal directions \<open>(0, 1)\<close>, \<open>(0, -1)\<close>, \<open>(1, 0)\<close>, \<open>(-1, 0)\<close>, and every
  cell of the disparity map within \<open>HEIGHT * WIDTH\<close> is the disparity selected from them:
  the full map is always produced.
\<close>

theorem no_input_rejected:
  assumes "in_reach dy dx"
  shows "(\<exists>agg agg'. aggregate_path_hls cost pv dy dx = Some agg \<and>
      aggregate_path_hls cost pv' dy dx = Some agg' \<and>
      (\<forall>y x d. (dy \<noteq> 0 \<or> dx \<noteq> 0) \<and> in_grid y x \<and> 0 \<le> d \<and> d < MAX_DISP
         \<longrightarrow> agg y x d = agg' y x d)) \<and>
   (\<exists>mem' out. sgm_hls mem left right out0 = Some (mem', out) \<and>
      cost_volume mem' = compute_sad_cost_hls left right (cost_volume mem) \<and>
      cardinal 0 1 \<and>
      aggregate_path_hls (cost_volume mem') (path_left_to_right mem) 0 1
        = Some (path_left_to_right mem') \<and>
      cardinal 0 (- 1) \<and>
      aggregate_path_hls (cost_volume mem') (path_right_to_left mem) 0 (- 1)
        = Some (path_right_to_left mem') \<and>
      cardinal 1 0 \<and>
      aggregate_path_hls (cost_volume mem') (path_top_to_bottom mem) 1 0
        = Some (path_top_to_bottom mem') \<and>
      cardinal (- 1) 0 \<and>
      aggregate_path_hls (cost_volume mem') (path_bottom_to_top mem) (- 1) 0
        = Some (path_bottom_to_top mem') \<and>
      (\<forall>i. 0 \<le> i \<and> i < HEIGHT * WIDTH \<longrightarrow>
         out i = select_disparity (path_left_to_right mem') (path_right_to_left mem')
                   (path_top_to_bottom mem') (path_bottom_to_top mem')
                   (i div WIDTH) (i mod WIDTH)))"
proof (rule conjI)
  have "aggregate_scan cost pv dy dx y x d = aggregate_scan cost pv' dy dx y x d"
    if "dy \<noteq> 0 \<or> dx \<noteq> 0" "in_grid y x" "0 \<le> d" "d < MAX_DISP" for y x d
    using aggregate_scan_indep [OF that(1,2), of cost cost pv pv'] that(3,4) by simp
  then show "\<exists>agg agg'. aggregate_path_hls cost pv dy dx = Some agg \<and>
      aggregate_path_hls cost pv' dy dx = Some agg' \<and>
      (\<forall>y x d. (dy \<noteq> 0 \<or> dx \<noteq> 0) \<and> in_grid y x \<and> 0 \<le> d \<and> d < MAX_DISP
         \<longrightarrow> agg y x d = agg' y x d)"
    by (simp add: aggregate_path_returns)
next
  show "\<exists>mem' out. sgm_hls mem left right out0 = Some (mem', out) \<and>
      cost_volume mem' = compute_sad_cost_hls left right (cost_volume mem) \<and>
      cardinal 0 1 \<and>
      aggregate_path_hls (cost_volume mem') (path_left_to_right mem) 0 1
        = Some (path_left_to_right mem') \<and>
      cardinal 0 (- 1) \<and>
      aggregate_path_hls (cost_volume mem') (path_right_to_left mem) 0 (- 1)
        = Some (path_right_to_left mem') \<and>
      cardinal 1 0 \<and>
      aggregate_path_hls (cost_volume mem') (path_top_to_bottom mem) 1 0
        = Some (path_top_to_bottom mem') \<and>
      cardinal (- 1) 0 \<and>
      aggregate_path_hls (cost_volume mem') (path_bottom_to_top mem) (- 1) 0
        = Some (path_bottom_to_top mem') \<and>
      (\<forall>i. 0 \<le> i \<and> i < HEIGHT * WIDTH \<longrightarrow>
         out i = select_disparity (path_left_to_right mem') (path_right_to_left mem')
                   (path_top_to_bottom mem') (path_bottom_to_top mem')
                   (i div WIDTH) (i mod WIDTH))"
    by (simp add: sgm_hls_returns aggregate_path_returns winner_take_all_cells cardinal_def)
qed

theorem no_input_rejected_witness:
  "in_reach 2 3 \<and> in_grid 0 0 \<and>
   (\<exists>agg agg'. aggregate_path_hls ramp_cost zero_volume 2 3 = Some agg \<and>
      aggregate_path_hls ramp_cost flat_cost 2 3 = Some agg' \<and> agg 0 0 5 = agg' 0 0 5) \<and>
   (\<exists>mem' out. sgm_hls stale_mem (gray 10) (gray 50) stale_disparities = Some (mem', out) \<and>
      out 5 = select_disparity (path_left_to_right mem') (path_right_to_left mem')
                (path_top_to_bottom mem') (path_bottom_to_top mem') (5 div WIDTH) (5 mod WIDTH))"
proof -
  have g: "in_grid 0 0" by (simp add: in_grid_def HEIGHT_def WIDTH_def)
  have r: "(0::int) \<le> 5 \<and> 5 < HEIGHT * WIDTH" by (simp add: HEIGHT_def WIDTH_def)
  have d: "(2::int) \<noteq> 0 \<or> (3::int) \<noteq> 0" "(0::int) \<le> 5" "5 < MAX_DISP"
    by (simp_all add: MAX_DISP_def)
  have k: "in_reach 2 3" by (simp add: in_reach_def HEIGHT_def WIDTH_def)
  from no_input_rejected [OF k, of ramp_cost zero_volume flat_cost stale_mem "gray 10" "gray 50"
      stale_disparities]
  show ?thesis using g r d k by blast
qed

text \<open>
  Claim C7, as stated, fails. On the cost volume whose cells are all 5000, scanned left to
  right, the cell of pixel \<open>(0, 1)\<close> at disparity 0 is 2000: the previous pixel holds 5000
  everywhere, so the constant 2000 that stands for the step down from disparity 0 is the
  smallest of the four candidates, and \<open>5000 + (2000 - 5000)\<close> is below the raw cost.
\<close>

theorem aggregated_below_raw_cost_counterexample:
  "aggregated_cell (aggregate_path_hls flat_cost zero_volume 0 1) 0 1 0 = Some 2000 \<and>
   flat_cost 0 1 0 = 5000"
proof -
  define agg where "agg = aggregate_scan flat_cost zero_volume 0 1"
  have dir: "(0::int) \<noteq> 0 \<or> (1::int) \<noteq> 0" by simp
  have g0: "in_grid 0 0" and g1: "in_grid 0 1" and out: "\<not> in_grid (0 - 0) (0 - 1)"
    by (simp_all add: in_grid_def HEIGHT_def WIDTH_def)
  have prev: "agg 0 0 e = 5000" if "0 \<le> e" "e < MAX_DISP" for e
    unfolding agg_def aggregate_scan_boundary [OF dir g0 out that] by (simp add: flat_cost_def)
  have "min_prev_aggregated (agg 0 0) = min_prev_aggregated (\<lambda>e. 5000)"
    by (rule min_prev_cong) (rule prev)
  also have "\<dots> = 5000" by (simp add: min_prev_aggregated_Min MAX_DISP_def)
  finally have mp: "min_prev_aggregated (agg 0 0) = 5000" .
  have "agg 0 0 0 = 5000" "agg 0 0 1 = 5000" by (rule prev, simp_all add: MAX_DISP_def)+
  then have mt: "min_transition_cost (agg 0 0) 5000 0 = 2000"
    by (simp add: min_transition_cost_min P1_PENALTY_def P2_PENALTY_def MAX_DISP_def)
  have "agg 0 1 0 = flat_cost 0 1 0 +
          (min_transition_cost (agg (0 - 0) (1 - 1)) (min_prev_aggregated (agg (0 - 0) (1 - 1))) 0
           - min_prev_aggregated (agg (0 - 0) (1 - 1)))"
    unfolding agg_def
    by (rule aggregate_scan_recurrence [OF dir g1]) (simp_all add: g0 MAX_DISP_def)
  then have "agg 0 1 0 = 2000" by (simp add: mp mt flat_cost_def)
  then show ?thesis
    by (simp add: aggregated_cell_def aggregate_path_returns agg_def flat_cost_def)
qed

text \<open>
  Claim C7, amended. For a cardinal direction and a cost volume whose cells are integers
  between 0 and 2000, every cell of the volume that
  \<^verbatim>\<open>aggregate_path_hls\<close> returns is at least the raw cost and at most the raw cost plus
  \<open>P2\<close>, hence not negative. The cells being integers of that size, every sum and
  difference that the code forms is exact.
\<close>

theorem aggregated_cost_bounds:
  assumes "cardinal dy dx"
    and "cost_cells_within 2000 cost"
    and "in_grid row col" and "0 \<le> d" and "d < MAX_DISP"
  shows "\<exists>agg. aggregate_path_hls cost pv dy dx = Some agg \<and>
           cost row col d \<le> agg row col d \<and> agg row col d \<le> cost row col d + P2_PENALTY \<and>
           0 \<le> agg row col d"
proof -
  have dir: "dy \<noteq> 0 \<or> dx \<noteq> 0" using assms(1) by (auto simp: cardinal_def)
  have ge: "cost row col d \<le> aggregate_scan cost pv dy dx row col d"
    by (rule aggregate_scan_ge_2000 [OF dir assms(3,4,5,2)])
  have le: "aggregate_scan cost pv dy dx row col d \<le> cost row col d + P2_PENALTY"
    by (rule aggregate_scan_le [OF dir assms(3,4,5)])
  have "0 \<le> cost row col d" by (rule cost_cells_withinD(2) [OF assms(2,3,4,5)])
  then show ?thesis using ge le by (simp add: aggregate_path_returns)
qed

theorem aggregated_cost_bounds_witness:
  "cardinal 0 1 \<and> cost_cells_within 2000 ramp_cost \<and> in_grid 0 1 \<and>
   ramp_cost 0 1 3 = 4 \<and>
   (\<exists>agg. aggregate_path_hls ramp_cost flat_cost 0 1 = Some agg \<and>
      4 \<le> agg 0 1 3 \<and> agg 0 1 3 \<le> 4 + P2_PENALTY \<and> 0 \<le> agg 0 1 3)"
proof -
  have c: "cost_cells_within 2000 ramp_cost"
    unfolding cost_cells_within_def ramp_cost_def
  proof (intro allI impI conjI)
    fix y x d :: int
    have "0 \<le> (x + d) mod 256" "(x + d) mod 256 < 256" by simp_all
    then show "0 \<le> (of_int ((x + d) mod 256) :: real)"
      and "(of_int ((x + d) mod 256) :: real) \<le> 2000"
      by simp_all
    show "(of_int ((x + d) mod 256) :: real) \<in> \<int>" by simp
  qed
  have g: "in_grid 0 1" by (simp add: in_grid_def HEIGHT_def WIDTH_def)
  have v: "ramp_cost 0 1 3 = 4" by (simp add: ramp_cost_def)
  have k: "cardinal 0 1" by (simp add: cardinal_def)
  show ?thesis
    using aggregated_cost_bounds [OF k c g, of 3 flat_cost] c g v k
    by (simp add: MAX_DISP_def)
qed

text \<open>
  Claim C8. \<^verbatim>\<open>sgm_hls\<close> returns for every pair of images; every cell of the disparity map
  within \<open>HEIGHT * WIDTH\<close> is at least 0 and below \<open>MAX_DISP\<close>, which is 16, and no cell
  outside is written.
\<close>

theorem disparity_map_range:
  "\<exists>mem' out. sgm_hls mem left right out0 = Some (mem', out) \<and> MAX_DISP = 16 \<and>
     (\<forall>i. if 0 \<le> i \<and> i < HEIGHT * WIDTH
          then 0 \<le> out i \<and> out i < MAX_DISP
          else out i = out0 i)"
  using select_disparity_range
  by (simp add: sgm_hls_returns winner_take_all_cells MAX_DISP_def)

theorem disparity_map_range_witness:
  "\<exists>mem' out. sgm_hls stale_mem (gray 10) (gray 50) stale_disparities = Some (mem', out) \<and>
     0 \<le> out 5 \<and> out 5 < 16 \<and> out (- 1) = 7"
proof -
  obtain mem' out where r: "sgm_hls stale_mem (gray 10) (gray 50) stale_disparities = Some (mem', out)"
    and c: "\<forall>i. if 0 \<le> i \<and> i < HEIGHT * WIDTH then 0 \<le> out i \<and> out i < MAX_DISP else out i = stale_disparities i"
    using disparity_map_range [of stale_mem "gray 10" "gray 50" stale_disparities] by blast
  have "0 \<le> out 5 \<and> out 5 < 16" using c [rule_format, of 5]
    by (simp add: HEIGHT_def WIDTH_def MAX_DISP_def)
  moreover have "out (- 1) = 7" using c [rule_format, of "- 1"]
    by (simp add: stale_disparities_def)
  ultimately show ?thesis using r by simp
qed

text \<open>
  Claim C9. The disparity map depends on the two images only: whatever the five static
  volumes and the output buffer held before the call (in particular what an earlier call
  left there), every cell of the map within \<open>HEIGHT * WIDTH\<close> is the same.
\<close>

theorem output_independent_of_previous_state:
  assumes "0 \<le> i" and "i < HEIGHT * WIDTH"
  shows "\<exists>m1 o1 m2 o2. sgm_hls mem1 left right out1 = Some (m1, o1) \<and>
           sgm_hls mem2 left right out2 = Some (m2, o2) \<and> o1 i = o2 i"
proof -
  define y x where "y = i div WIDTH" and "x = i mod WIDTH"
  have g: "in_grid y x"
    using assms unfolding y_def x_def in_grid_def HEIGHT_def WIDTH_def by auto
  define c1 c2 where "c1 = compute_sad_cost_hls left right (cost_volume mem1)"
    and "c2 = compute_sad_cost_hls left right (cost_volume mem2)"
  have c: "c1 y x d = c2 y x d" if "in_grid y x" "0 \<le> d" "d < MAX_DISP" for y x d
    using that by (simp add: c1_def c2_def compute_sad_cost_cells in_grid_def)
  have eq: "\<forall>d. 0 \<le> d \<and> d < MAX_DISP \<longrightarrow>
              aggregate_scan c1 p dy dx y x d = aggregate_scan c2 p' dy dx y x d"
    if "dy \<noteq> 0 \<or> dx \<noteq> 0" for dy dx p p'
    by (rule aggregate_scan_indep [OF that g c])
  have "select_disparity
          (aggregate_scan c1 (path_left_to_right mem1) 0 1)
          (aggregate_scan c1 (path_right_to_left mem1) 0 (- 1))
          (aggregate_scan c1 (path_top_to_bottom mem1) 1 0)
          (aggregate_scan c1 (path_bottom_to_top mem1) (- 1) 0) y x =
        select_disparity
          (aggregate_scan c2 (path_left_to_right mem2) 0 1)
          (aggregate_scan c2 (path_right_to_left mem2) 0 (- 1))
          (aggregate_scan c2 (path_top_to_bottom mem2) 1 0)
          (aggregate_scan c2 (path_bottom_to_top mem2) (- 1) 0) y x"
    by (rule select_disparity_cong) (simp add: eq)
  then show ?thesis
    using assms
    by (simp add: sgm_hls_returns winner_take_all_cells c1_def c2_def y_def x_def)
qed

theorem output_independent_of_previous_state_witness:
  "(0::int) \<le> 5 \<and> 5 < HEIGHT * WIDTH \<and>
   (\<exists>m1 o1 m2 o2. sgm_hls blank_mem (gray 10) (gray 50) no_disparities = Some (m1, o1) \<and>
      sgm_hls stale_mem (gray 10) (gray 50) stale_disparities = Some (m2, o2) \<and> o1 5 = o2 5)"
  using output_independent_of_previous_state
    [of 5 blank_mem "gray 10" "gray 50" no_disparities stale_mem stale_disparities]
  by (simp add: HEIGHT_def WIDTH_def)

text \<open>
  Claim C10. When the intensities of both images lie between 0 and 255, the disparity that
  \<^verbatim>\<open>sgm_hls\<close> stores at pixel \<open>(row, col)\<close> is at most \<open>col\<close>: a disparity above \<open>col\<close> has
  the raw cost 1000, hence a total of at least 4000, and the total at disparity 0 is at most
  \<open>4 \<cdot> (255 + 128)\<close>.
\<close>

theorem selected_disparity_within_column:
  assumes range: "\<forall>i. 0 \<le> i \<and> i < HEIGHT * WIDTH \<longrightarrow>
                    0 \<le> left i \<and> left i \<le> 255 \<and> 0 \<le> right i \<and> right i \<le> 255"
    and g: "in_grid row col"
  shows "\<exists>mem' out. sgm_hls mem left right out0 = Some (mem', out) \<and>
           out (row * WIDTH + col) \<le> col"
proof -
  define c where "c = compute_sad_cost_hls left right (cost_volume mem)"
  define plr prl ptb pbt where "plr = aggregate_scan c (path_left_to_right mem) 0 1"
    and "prl = aggregate_scan c (path_right_to_left mem) 0 (- 1)"
    and "ptb = aggregate_scan c (path_top_to_bottom mem) 1 0"
    and "pbt = aggregate_scan c (path_bottom_to_top mem) (- 1) 0"
  define t where "t = total_cost plr prl ptb pbt row col"
  define b where "b = select_disparity plr prl ptb pbt row col"
  have l: "0 \<le> left i \<and> left i \<le> 255" and r: "0 \<le> right i \<and> right i \<le> 255"
    if "0 \<le> i" "i < HEIGHT * WIDTH" for i
    using range that by simp_all
  have d0: "(0::int) \<le> 0" "0 < MAX_DISP" by (simp_all add: MAX_DISP_def)
  have low: "\<exists>e. 0 \<le> e \<and> e < MAX_DISP \<and> c y x e \<le> 1872" if "in_grid y x" for y x
  proof -
    have "c y x 0 \<le> 1000" unfolding c_def by (rule cost_le_1000 [OF that d0 l r])
    then show ?thesis using d0 by (intro exI [of _ 0]) simp
  qed
  have "c row col 0 \<le> 255"
    unfolding c_def using g by (intro cost_le_255 [OF g d0 _ l r]) (simp_all add: in_grid_def)
  moreover have "t 0 \<le> 4 * c row col 0 + 512"
    unfolding t_def plr_def prl_def ptb_def pbt_def by (rule total_le [OF g d0])
  ultimately have t0: "t 0 \<le> 1532" by simp
  then have "total_cost plr prl ptb pbt row col 0 < 1000000000" by (simp add: t_def)
  then have tb: "t b \<le> t 0"
    unfolding t_def b_def by (rule select_disparity_le_first)
  have br: "0 \<le> b" "b < MAX_DISP"
    using select_disparity_range [of plr prl ptb pbt row col] by (simp_all add: b_def)
  have "b \<le> col"
  proof (rule ccontr)
    assume "\<not> b \<le> col"
    then have "c row col b = 1000"
      using g br by (simp add: c_def compute_sad_cost_cells in_grid_def)
    moreover have "4 * c row col b \<le> t b"
      unfolding t_def plr_def prl_def ptb_def pbt_def
      by (rule total_ge [OF g br]) (rule low, assumption)+
    ultimately show False using tb t0 by simp
  qed
  then have "winner_take_all plr prl ptb pbt out0 (row * WIDTH + col) \<le> col"
    by (simp add: winner_take_all_pixel [OF g] b_def)
  then show ?thesis
    by (simp add: sgm_hls_returns c_def plr_def prl_def ptb_def pbt_def)
qed

theorem selected_disparity_within_column_witness:
  "in_grid 3 7 \<and>
   (\<exists>mem' out. sgm_hls stale_mem (gray 10) (gray 200) stale_disparities = Some (mem', out) \<and>
      out (3 * WIDTH + 7) \<le> 7)"
  using selected_disparity_within_column [of "gray 10" "gray 200" 3 7 stale_mem stale_disparities]
  by (simp add: in_grid_def HEIGHT_def WIDTH_def gray_def)

end
